theory Spec2Isabelle
  imports Main
begin

section \<open>JavaScript string primitives used by the engine\<close>

text \<open>
  Strings are lists of characters. The numbers that the engine reads with \<open>parseInt\<close> are
  IEEE doubles with an integral value: they are modelled as the integers that doubles can
  represent, \<open>to_double\<close> rounding the integer a digit string denotes to the nearest double
  (ties to the even significand, as Node does), with \<open>2 ^ 1024\<close> standing for \<open>Infinity\<close>.
  The engine only compares these numbers and tests them with \<open>|| 0\<close>, and for both the
  integer stands for the double. \<open>NaN\<close> is \<open>None\<close>.
\<close>

definition is_digit :: "char \<Rightarrow> bool" where
  "is_digit c = (48 \<le> (of_char c :: nat) \<and> (of_char c :: nat) \<le> 57)"

definition digit_val :: "char \<Rightarrow> int" where
  "digit_val c = int (of_char c) - 48"

definition digits_val :: "string \<Rightarrow> int" where
  "digits_val ds = foldl (\<lambda>acc c. acc * 10 + digit_val c) 0 ds"

function bit_length :: "int \<Rightarrow> nat" where
  "bit_length n = (if n \<le> 0 then 0 else Suc (bit_length (n div 2)))"
  by pat_completeness auto
termination
  by (relation "measure nat") auto

declare bit_length.simps [simp del]

definition to_double :: "int \<Rightarrow> int" where
  "to_double n =
    (if n < 9007199254740992 then n
     else
       (let e = bit_length n - 53;
            q = n div 2 ^ e;
            r = n mod 2 ^ e;
            half = 2 ^ (e - 1);
            q' = (if r > half \<or> (r = half \<and> odd q) then q + 1 else q)
        in min (q' * 2 ^ e) (2 ^ 1024)))"

text \<open>The characters removed by \<open>String.prototype.trim\<close> and matched by \<open>\s\<close>
  (those below code point 256).\<close>

definition is_ws :: "char \<Rightarrow> bool" where
  "is_ws c = (c \<in> set [CHR '' '', CHR 0x09, CHR 0x0A, CHR 0x0B, CHR 0x0C, CHR 0x0D, CHR 0xA0])"

definition trim :: "string \<Rightarrow> string" where
  "trim s = rev (dropWhile is_ws (rev (dropWhile is_ws s)))"

primrec starts_with :: "string \<Rightarrow> string \<Rightarrow> bool" where
  "starts_with [] p = (p = [])"
| "starts_with (c # cs) p = (case p of [] \<Rightarrow> True | q # qs \<Rightarrow> c = q \<and> starts_with cs qs)"

primrec str_includes :: "string \<Rightarrow> string \<Rightarrow> bool" where
  "str_includes [] p = (p = [])"
| "str_includes (c # cs) p = (starts_with (c # cs) p \<or> str_includes cs p)"

text \<open>\<open>String(n)\<close> for an integer.\<close>

definition digit_char :: "nat \<Rightarrow> char" where
  "digit_char d = char_of (48 + d)"

fun show_nat :: "nat \<Rightarrow> string" where
  "show_nat n = (if n < 10 then [digit_char n] else show_nat (n div 10) @ [digit_char (n mod 10)])"

definition show_int :: "int \<Rightarrow> string" where
  "show_int i = (if i < 0 then CHR ''-'' # show_nat (nat (- i)) else show_nat (nat i))"

text \<open>\<open>s.replace(/^v/, '')\<close>\<close>

definition strip_v :: "string \<Rightarrow> string" where
  "strip_v s = (case s of [] \<Rightarrow> [] | c # cs \<Rightarrow> if c = CHR ''v'' then cs else s)"

text \<open>\<open>s.split(sep)\<close> for a non-empty separator string: the pieces between the
  successive leftmost occurrences of \<open>sep\<close>.\<close>

fun split_acc :: "string \<Rightarrow> string \<Rightarrow> string \<Rightarrow> string list" where
  "split_acc sep acc [] = [rev acc]"
| "split_acc sep acc (c # cs) =
     (if sep \<noteq> [] \<and> starts_with (c # cs) sep
      then rev acc # split_acc sep [] (drop (length sep) (c # cs))
      else split_acc sep (c # acc) cs)"

definition split :: "string \<Rightarrow> string \<Rightarrow> string list" where
  "split sep s = split_acc sep [] s"

text \<open>\<open>s.split(/\s+/)\<close>.\<close>

function split_ws_acc :: "string \<Rightarrow> string \<Rightarrow> string list" where
  "split_ws_acc acc [] = [rev acc]"
| "split_ws_acc acc (c # cs) =
     (if is_ws c then rev acc # split_ws_acc [] (dropWhile is_ws cs)
      else split_ws_acc (c # acc) cs)"
  by pat_completeness auto
termination
  by (relation "measure (\<lambda>(acc, s). length s)") (auto simp: length_dropWhile_le less_Suc_eq_le)

definition split_ws :: "string \<Rightarrow> string list" where
  "split_ws s = split_ws_acc [] s"

text \<open>\<open>parseInt(s, 10)\<close>: leading white space, an optional sign, then the longest run of
  digits; \<open>None\<close> is \<open>NaN\<close>. \<open>or_zero\<close> is \<open>parseInt(s, 10) || 0\<close>.\<close>

definition parseInt10 :: "string \<Rightarrow> int option" where
  "parseInt10 s =
    (let s1 = dropWhile is_ws s;
         neg = (s1 \<noteq> [] \<and> hd s1 = CHR ''-'');
         s2 = (if s1 \<noteq> [] \<and> (hd s1 = CHR ''-'' \<or> hd s1 = CHR ''+'') then tl s1 else s1);
         ds = takeWhile is_digit s2
     in if ds = [] then None
        else Some (if neg then - to_double (digits_val ds) else to_double (digits_val ds)))"

definition or_zero :: "int option \<Rightarrow> int" where
  "or_zero n = (case n of None \<Rightarrow> 0 | Some k \<Rightarrow> k)"


section \<open>Version Constraint Matcher (tasks/base.ts)\<close>

record version_parts =
  major :: int
  minor :: int
  patch :: int

text \<open>\<open>parseVersionParts\<close> matches \<open>/^(\d+)(?:\.(\d+))?(?:\.(\d+))?/\<close> after removing a leading
  \<open>v\<close>. \<open>opt_group\<close> is one optional group \<open>(?:\.(\d+))?\<close>: the captured digits, if the
  group matches, and the rest of the input.\<close>

definition opt_group :: "string \<Rightarrow> string option \<times> string" where
  "opt_group r =
    (case r of [] \<Rightarrow> (None, r)
     | c # cs \<Rightarrow>
        if c = CHR ''.'' \<and> takeWhile is_digit cs \<noteq> []
        then (Some (takeWhile is_digit cs), dropWhile is_digit cs)
        else (None, r))"

definition group_val :: "string option \<Rightarrow> int" where
  "group_val g = (case g of None \<Rightarrow> 0 | Some ds \<Rightarrow> or_zero (parseInt10 ds))"

definition parseVersionParts :: "string \<Rightarrow> version_parts option" where
  "parseVersionParts version =
    (let s = strip_v version; d1 = takeWhile is_digit s in
     if d1 = [] then None
     else let (g2, r2) = opt_group (dropWhile is_digit s);
              (g3, r3) = opt_group r2
          in Some \<lparr>major = or_zero (parseInt10 d1), minor = group_val g2, patch = group_val g3\<rparr>)"

text \<open>\<open>compareVersions\<close>: the loop over \<open>i < maxLen\<close>, with \<open>parts[i] || 0\<close> for a
  missing component.\<close>

function compare_loop :: "int list \<Rightarrow> int list \<Rightarrow> nat \<Rightarrow> nat \<Rightarrow> int" where
  "compare_loop partsA partsB maxLen i =
    (if i < maxLen then
       (let numA = (if i < length partsA then partsA ! i else 0);
            numB = (if i < length partsB then partsB ! i else 0)
        in if numA < numB then - 1
           else if numA > numB then 1
           else compare_loop partsA partsB maxLen (Suc i))
     else 0)"
  by pat_completeness auto
termination
  by (relation "measure (\<lambda>(a, b, m, i). m - i)") auto

declare compare_loop.simps [simp del]

definition compareVersions :: "string \<Rightarrow> string \<Rightarrow> int" where
  "compareVersions a b =
    (let partsA = map (\<lambda>n. or_zero (parseInt10 n)) (split ''.'' (strip_v a));
         partsB = map (\<lambda>n. or_zero (parseInt10 n)) (split ''.'' (strip_v b));
         maxLen = max (length partsA) (length partsB)
     in compare_loop partsA partsB maxLen 0)"

text \<open>The wildcard branch of \<open>satisfiesVersion\<close>: \<open>vParts[i]\<close> is undefined beyond the
  patch number, and \<open>wildcard_loop\<close> is the \<open>for\<close> loop over the constraint's segments
  from index \<open>i\<close>.\<close>

definition vParts :: "version_parts \<Rightarrow> nat \<Rightarrow> int option" where
  "vParts v i = (if i = 0 then Some (major v) else if i = 1 then Some (minor v)
                 else if i = 2 then Some (patch v) else None)"

fun wildcard_loop :: "version_parts \<Rightarrow> string list \<Rightarrow> nat \<Rightarrow> bool" where
  "wildcard_loop v [] i = True"
| "wildcard_loop v (p # ps) i =
    (if p = ''x'' \<or> p = ''*'' then True
     else (case parseInt10 p of
             None \<Rightarrow> wildcard_loop v ps (Suc i)
           | Some cPart \<Rightarrow> if vParts v i \<noteq> Some cPart then False
                           else wildcard_loop v ps (Suc i)))"

text \<open>The pieces of a split are shorter than the string when the separator occurs: this is
  what makes the recursion of \<open>satisfiesVersion\<close> on the alternatives of \<open>||\<close> and on the
  space-separated parts terminate.\<close>

lemma length_trim_le: "length (trim s) \<le> length s"
  unfolding trim_def
  by (metis length_dropWhile_le length_rev order_trans)

lemma split_acc_length_le:
  "p \<in> set (split_acc sep acc s) \<Longrightarrow> length p \<le> length acc + length s"
  by (induction sep acc s rule: split_acc.induct) (auto split: if_splits)

lemma split_acc_length_less:
  "sep \<noteq> [] \<Longrightarrow> str_includes s sep \<Longrightarrow> p \<in> set (split_acc sep acc s)
     \<Longrightarrow> length p < length acc + length s"
proof (induction sep acc s rule: split_acc.induct)
  case (1 sep acc)
  then show ?case by simp
next
  case (2 sep acc c cs)
  show ?case
  proof (cases "starts_with (c # cs) sep")
    case True
    with 2 have "p = rev acc \<or> p \<in> set (split_acc sep [] (drop (length sep) (c # cs)))"
      by auto
    then show ?thesis
    proof
      assume "p = rev acc" then show ?thesis by simp
    next
      assume "p \<in> set (split_acc sep [] (drop (length sep) (c # cs)))"
      from split_acc_length_le[OF this] 2(3) show ?thesis by (cases sep) auto
    qed
  next
    case False
    with 2 show ?thesis by auto
  qed
qed

lemma split_ws_acc_length_le:
  "p \<in> set (split_ws_acc acc s) \<Longrightarrow> length p \<le> length acc + length s"
proof (induction acc s rule: split_ws_acc.induct)
  case (1 acc)
  then show ?case by simp
next
  case (2 acc c cs)
  have "length (dropWhile is_ws cs) \<le> length cs" by (rule length_dropWhile_le)
  with 2 show ?case by (auto split: if_splits)
qed

lemma split_ws_acc_length_less:
  "\<exists>c \<in> set s. is_ws c \<Longrightarrow> p \<in> set (split_ws_acc acc s)
     \<Longrightarrow> length p < length acc + length s"
proof (induction acc s rule: split_ws_acc.induct)
  case (1 acc)
  then show ?case by simp
next
  case (2 acc c cs)
  show ?case
  proof (cases "is_ws c")
    case True
    with 2 have "p = rev acc \<or> p \<in> set (split_ws_acc [] (dropWhile is_ws cs))"
      by auto
    then show ?thesis
    proof
      assume "p = rev acc" then show ?thesis by simp
    next
      assume "p \<in> set (split_ws_acc [] (dropWhile is_ws cs))"
      from split_ws_acc_length_le[OF this] length_dropWhile_le[of is_ws cs]
      show ?thesis by simp
    qed
  next
    case False
    with 2 show ?thesis by auto
  qed
qed

lemma starts_with_hd: "starts_with s (q # qs) \<Longrightarrow> q \<in> set s"
  by (cases s) auto

lemma str_includes_hd: "str_includes s (q # qs) \<Longrightarrow> q \<in> set s"
  by (induction s) (auto dest: starts_with_hd)

text \<open>\<open>satisfiesVersion\<close>, branch by branch in the order of the source. In the range
  branch the split has at least two pieces, since the separator occurs.\<close>

function satisfiesVersion :: "string \<Rightarrow> string \<Rightarrow> bool" where
  "satisfiesVersion version constraint =
    (case parseVersionParts version of
       None \<Rightarrow> False
     | Some v \<Rightarrow>
        (let c = trim constraint in
         if c = ''latest'' \<or> c = ''*'' \<or> c = ''x'' \<or> c = [] then True
         else if starts_with c ''^'' then
           (case parseVersionParts (drop 1 c) of
              None \<Rightarrow> False
            | Some target \<Rightarrow>
                if major v \<noteq> major target then False
                else compareVersions version (drop 1 c) \<ge> 0)
         else if starts_with c ''~'' then
           (case parseVersionParts (drop 1 c) of
              None \<Rightarrow> False
            | Some target \<Rightarrow>
                if major v \<noteq> major target \<or> minor v \<noteq> minor target then False
                else patch v \<ge> patch target)
         else if starts_with c ''>='' then compareVersions version (trim (drop 2 c)) \<ge> 0
         else if starts_with c ''>'' \<and> \<not> starts_with c ''>='' then
           compareVersions version (trim (drop 1 c)) > 0
         else if starts_with c ''<='' then compareVersions version (trim (drop 2 c)) \<le> 0
         else if starts_with c ''<'' \<and> \<not> starts_with c ''<='' then
           compareVersions version (trim (drop 1 c)) < 0
         else if starts_with c ''='' then compareVersions version (trim (drop 1 c)) = 0
         else if str_includes c ''x'' \<or> str_includes c ''*'' then
           wildcard_loop v (split ''.'' (strip_v c)) 0
         else if str_includes c '' - '' then
           (case map trim (split '' - '' c) of
              mn # mx # rest \<Rightarrow>
                compareVersions version mn \<ge> 0 \<and> compareVersions version mx \<le> 0
            | _ \<Rightarrow> False)
         else if str_includes c ''||'' then
           list_ex (\<lambda>part. satisfiesVersion version (trim part)) (split ''||'' c)
         else if str_includes c '' '' \<and> \<not> str_includes c '' - '' then
           list_all (\<lambda>part. satisfiesVersion version (trim part)) (split_ws c)
         else compareVersions version c = 0))"
  by pat_completeness auto
termination
proof (relation "measure (\<lambda>(v, c). length c)", goal_cases)
  case 1
  show ?case by simp
next
  case (2 version constraint v c part)
  from 2 have inc: "str_includes (trim constraint) ''||''" and
    mem: "part \<in> set (split ''||'' (trim constraint))" by auto
  from split_acc_length_less[OF _ inc, of part "[]"] mem
  have "length part < length (trim constraint)" by (simp add: split_def)
  with length_trim_le[of part] length_trim_le[of constraint] show ?case by simp
next
  case (3 version constraint v c part)
  from 3 have inc: "str_includes (trim constraint) '' ''" and
    mem: "part \<in> set (split_ws (trim constraint))" by auto
  from str_includes_hd[OF inc] have "\<exists>ch \<in> set (trim constraint). is_ws ch"
    by (auto simp: is_ws_def)
  from split_ws_acc_length_less[OF this, of part "[]"] mem
  have "length part < length (trim constraint)" by (simp add: split_ws_def)
  with length_trim_le[of part] length_trim_le[of constraint] show ?case by simp
qed

declare satisfiesVersion.simps [simp del]






section \<open>Data model (types/formula.ts)\<close>

text \<open>Optional fields are options; \<open>None\<close> is JavaScript's \<open>undefined\<close>. The step type is
  kept as the string the document carries, since the parser casts it after checking it.
  Durations and timestamps are wall-clock readings and are left out.\<close>

record InstallStep =
  step_name :: string
  step_type :: string
  step_command :: string
  step_args :: "string list option"
  step_optional :: "bool option"
  step_platforms :: "string list option"
  step_env :: "(string \<times> string) list option"
  step_cwd :: "string option"
  step_postInstall :: "string list option"

record FormulaTask =
  task_id :: string
  task_name :: string
  task_steps :: "InstallStep list"
  task_dependencies :: "string list option"
  task_category :: string
  task_version :: "string option"

record StepResult =
  sr_step :: InstallStep
  sr_success :: bool
  sr_output :: "string option"
  sr_error :: "string option"

text \<open>\<open>skipped\<close> is absent on results that were not skipped; absent reads as false.\<close>

record TaskResult =
  tr_task :: FormulaTask
  tr_success :: bool
  tr_steps :: "StepResult list"
  tr_skipped :: bool
  tr_skipReason :: "string option"

section \<open>Step validation and command construction\<close>

text \<open>formula-parser.ts, \<open>validateStep\<close>: the list of accepted step types.\<close>

definition validTypes :: "string list" where
  "validTypes = [''brew'', ''npm'', ''apt'', ''shell'', ''curl'', ''git'', ''pip'']"

text \<open>step-executor.ts, \<open>buildCommand\<close>: \<open>Inl\<close> is the thrown error's message.\<close>

definition buildCommand :: "InstallStep \<Rightarrow> string + (string \<times> string list)" where
  "buildCommand step =
    (let baseArgs = (case step_args step of None \<Rightarrow> [] | Some a \<Rightarrow> a) in
     if step_type step = ''brew'' then Inr (''brew'', [''install'', step_command step] @ baseArgs)
     else if step_type step = ''npm'' then Inr (''npm'', [''install'', ''-g'', step_command step] @ baseArgs)
     else if step_type step = ''pip'' then Inr (''pip3'', [''install'', step_command step] @ baseArgs)
     else if step_type step = ''apt'' then
       Inr (''sudo'', [''apt-get'', ''install'', ''-y'', step_command step] @ baseArgs)
     else if step_type step = ''shell'' then Inr (''sh'', [''-c'', step_command step] @ baseArgs)
     else if step_type step = ''curl'' then
       Inr (''sh'', [''-c'', ''curl -fsSL '' @ step_command step @ '' | sh''] @ baseArgs)
     else if step_type step = ''git'' then Inr (''git'', [''clone'', step_command step] @ baseArgs)
     else Inl (''Unknown step type: '' @ step_type step))"

section \<open>The machine outside the engine\<close>

text \<open>
  The engine reaches the machine through two calls: \<open>execSync\<close>, for a version command,
  and \<open>spawn\<close>, for the command of a step (with its arguments, the \<open>env\<close> of the step and
  its working directory). The machine is modelled by the history of the calls issued so
  far and a function \<open>respond\<close> that gives the outcome of a call after a history: the exit
  code (\<open>None\<close> when a signal ended the process) with what was written to standard output
  and standard error, or the error of a process that could not be started, with its
  message. \<open>execSync\<close> throws unless the exit code is 0. The regular expression engine is a
  function too: for a pattern and a subject it throws (the pattern is not valid), or
  returns the first capture group of the first match, if there is a match and the group
  took part in it. \<open>BaseTask\<close> holds the fields of a registered task that the version check
  reads.
\<close>

datatype call =
    ExecSync string
  | Spawn string "string list" "(string \<times> string) list option" "string option"

datatype outcome =
    Exited "int option" string string
  | SpawnError string

datatype 'a js_result = Throws | Returns 'a

record BaseTask =
  bt_id :: string
  bt_name :: string
  bt_versionCommand :: "string option"
  bt_versionParseRegex :: "string option"

record env =
  currentPlatform :: string
  taskRegistry :: "string \<Rightarrow> BaseTask option"
  respond :: "call list \<Rightarrow> call \<Rightarrow> outcome"
  regexp_group1 :: "string \<Rightarrow> string \<Rightarrow> string option js_result"

section \<open>Version Check Adapter (tasks/base.ts)\<close>

text \<open>
  Without a pattern of its own a task uses
  \<open>/v?(\d+\.\d+(?:\.\d+)?(?:[-+][a-zA-Z0-9.]+)?)/\<close>. \<open>version_core\<close> matches the group at the
  start of a string; \<open>default_version_match\<close> returns the group of the leftmost match (a
  leading \<open>v\<close> is outside the group, and where the match fails after a \<open>v\<close> it fails at the
  \<open>v\<close> too). \<open>checkVersion\<close> returns its result and the history extended with the call it
  issued; every exception in its \<open>try\<close> block ends in the same \<open>catch\<close>.
\<close>

definition is_alnum_dot :: "char \<Rightarrow> bool" where
  "is_alnum_dot c = (is_digit c \<or> c = CHR ''.'' \<or>
     (97 \<le> (of_char c :: nat) \<and> (of_char c :: nat) \<le> 122) \<or>
     (65 \<le> (of_char c :: nat) \<and> (of_char c :: nat) \<le> 90))"

definition version_core :: "string \<Rightarrow> string option" where
  "version_core s =
    (let d1 = takeWhile is_digit s in
     if d1 = [] then None
     else (case dropWhile is_digit s of
             [] \<Rightarrow> None
           | c # r1 \<Rightarrow>
               if c \<noteq> CHR ''.'' \<or> takeWhile is_digit r1 = [] then None
               else
                 (let d2 = takeWhile is_digit r1;
                      (g3, r3) = opt_group (dropWhile is_digit r1);
                      third = (case g3 of None \<Rightarrow> [] | Some d3 \<Rightarrow> CHR ''.'' # d3);
                      suffix = (case r3 of
                                  [] \<Rightarrow> []
                                | t # ts \<Rightarrow>
                                    if (t = CHR ''-'' \<or> t = CHR ''+'') \<and> takeWhile is_alnum_dot ts \<noteq> []
                                    then t # takeWhile is_alnum_dot ts else [])
                  in Some (d1 @ CHR ''.'' # d2 @ third @ suffix))))"

fun default_version_match :: "string \<Rightarrow> string option" where
  "default_version_match [] = None"
| "default_version_match (c # cs) =
    (case version_core (strip_v (c # cs)) of
       Some m \<Rightarrow> Some m
     | None \<Rightarrow> default_version_match cs)"

definition parseVersion :: "env \<Rightarrow> BaseTask \<Rightarrow> string \<Rightarrow> string option js_result" where
  "parseVersion e t output =
    (case bt_versionParseRegex t of
       None \<Rightarrow> Returns (default_version_match output)
     | Some rx \<Rightarrow> if rx = [] then Returns (default_version_match output)
                  else regexp_group1 e rx output)"

record VersionCheckResult =
  installed :: bool
  currentVersion :: "string option"
  needsUpdate :: bool
  message :: string

definition checkVersion ::
    "env \<Rightarrow> call list \<Rightarrow> BaseTask \<Rightarrow> string \<Rightarrow> VersionCheckResult \<times> call list" where
  "checkVersion e h t desiredVersion =
    (let notSupported = (\<lparr>installed = False, currentVersion = None, needsUpdate = True,
            message = ''Version check not supported for '' @ bt_name t\<rparr>, h)
     in case bt_versionCommand t of
       None \<Rightarrow> notSupported
     | Some versionCmd \<Rightarrow>
        if versionCmd = [] then notSupported
        else
          (let h' = h @ [ExecSync versionCmd];
               notInstalled = (\<lparr>installed = False, currentVersion = None, needsUpdate = True,
                  message = bt_name t @ '' is not installed''\<rparr>, h')
           in case respond e h (ExecSync versionCmd) of
             SpawnError m \<Rightarrow> notInstalled
           | Exited code out err \<Rightarrow>
              if code \<noteq> Some 0 then notInstalled
              else
                (case parseVersion e t (trim out) of
                   Throws \<Rightarrow> notInstalled
                 | Returns None \<Rightarrow>
                     (\<lparr>installed = True, currentVersion = None, needsUpdate = False,
                       message = bt_name t @ '' is installed (version unknown)''\<rparr>, h')
                 | Returns (Some cur) \<Rightarrow>
                     if cur = [] then
                       (\<lparr>installed = True, currentVersion = None, needsUpdate = False,
                         message = bt_name t @ '' is installed (version unknown)''\<rparr>, h')
                     else
                       (let satisfies = satisfiesVersion cur desiredVersion in
                        (\<lparr>installed = True, currentVersion = Some cur, needsUpdate = \<not> satisfies,
                          message = (if satisfies
                            then bt_name t @ '' '' @ cur @ '' satisfies '' @ desiredVersion
                            else bt_name t @ '' '' @ cur @ '' does not satisfy '' @ desiredVersion)\<rparr>,
                         h')))))"


section \<open>Step Executor (executor/step-executor.ts)\<close>

text \<open>
  \<open>runCommand\<close> resolves with the standard output when the exit code is 0 and rejects
  otherwise, with the standard error or, when that is empty, with a message naming the
  exit code. \<open>stepExecute\<close> is \<open>StepExecutor.execute\<close>: every rejection, and the error of
  \<open>buildCommand\<close>, ends in the \<open>catch\<close> block, which builds \<open>step_failure\<close>.
\<close>

definition shouldRunOnPlatform :: "env \<Rightarrow> InstallStep \<Rightarrow> bool" where
  "shouldRunOnPlatform e step =
    (case step_platforms step of
       None \<Rightarrow> True
     | Some ps \<Rightarrow> if ps = [] then True else currentPlatform e \<in> set ps)"

definition show_code :: "int option \<Rightarrow> string" where
  "show_code code = (case code of None \<Rightarrow> ''null'' | Some n \<Rightarrow> show_int n)"

definition runCommand ::
    "env \<Rightarrow> call list \<Rightarrow> string \<Rightarrow> string list \<Rightarrow> (string \<times> string) list option
      \<Rightarrow> string option \<Rightarrow> (string + string) \<times> call list" where
  "runCommand e h cmd as ev wd =
    (let c = Spawn cmd as ev wd in
     (case respond e h c of
        Exited code out err \<Rightarrow>
          if code = Some 0 then Inr out
          else Inl (if err \<noteq> [] then err else ''Command failed with exit code '' @ show_code code)
      | SpawnError m \<Rightarrow> Inl m,
      h @ [c]))"

fun runPostInstall ::
    "env \<Rightarrow> call list \<Rightarrow> InstallStep \<Rightarrow> string list \<Rightarrow> (string + unit) \<times> call list" where
  "runPostInstall e h step [] = (Inr (), h)"
| "runPostInstall e h step (postCmd # rest) =
    (case runCommand e h ''sh'' [''-c'', postCmd] (step_env step) (step_cwd step) of
       (Inl msg, h') \<Rightarrow> (Inl msg, h')
     | (Inr out, h') \<Rightarrow> runPostInstall e h' step rest)"

definition step_failure :: "InstallStep \<Rightarrow> string \<Rightarrow> StepResult" where
  "step_failure step errorMessage =
    \<lparr>sr_step = step,
     sr_success = (case step_optional step of None \<Rightarrow> False | Some b \<Rightarrow> b),
     sr_output = None, sr_error = Some errorMessage\<rparr>"

definition stepExecute :: "env \<Rightarrow> call list \<Rightarrow> InstallStep \<Rightarrow> StepResult \<times> call list" where
  "stepExecute e h step =
    (if \<not> shouldRunOnPlatform e step then
       (\<lparr>sr_step = step, sr_success = True,
         sr_output = Some (''Skipped: not applicable for '' @ currentPlatform e),
         sr_error = None\<rparr>, h)
     else
       (case buildCommand step of
          Inl msg \<Rightarrow> (step_failure step msg, h)
        | Inr (cmd, as) \<Rightarrow>
           (case runCommand e h cmd as (step_env step) (step_cwd step) of
              (Inl msg, h1) \<Rightarrow> (step_failure step msg, h1)
            | (Inr output, h1) \<Rightarrow>
               (case runPostInstall e h1 step
                       (case step_postInstall step of None \<Rightarrow> [] | Some ps \<Rightarrow> ps) of
                  (Inl msg, h2) \<Rightarrow> (step_failure step msg, h2)
                | (Inr u, h2) \<Rightarrow>
                   (\<lparr>sr_step = step, sr_success = True, sr_output = Some output,
                     sr_error = None\<rparr>, h2)))))"

section \<open>Formula Executor (executor/formula-executor.ts)\<close>

text \<open>
  An absent option reads as false. The state of an executor is its set \<open>installedTasks\<close>,
  created empty with the executor, together with the history of the calls issued to the
  machine.
\<close>

record ExecutorOptions =
  selectedTasks :: "string list option"
  selectedCategories :: "string list option"
  dryRun :: bool
  verbose :: bool
  continueOnError :: bool
  forceInstall :: bool
  skipVersionCheck :: bool

record ResolvedFormula =
  f_name :: string
  f_version :: string
  f_tasks :: "FormulaTask list"

record InstallResult =
  ir_formula :: ResolvedFormula
  ir_success :: bool
  ir_tasks :: "TaskResult list"

record executor_state =
  installedTasks :: "string set"
  history :: "call list"

definition new_executor :: "call list \<Rightarrow> executor_state" where
  "new_executor h = \<lparr>installedTasks = {}, history = h\<rparr>"

subsection \<open>topologicalSort\<close>

text \<open>
  \<open>taskMap\<close> is \<open>new Map(tasks.map(task => [task.id, task]))\<close>: for an id that occurs twice
  the later task wins. \<open>visit\<close> is the closure of the source, with the visited set and the
  result list passed as state; \<open>visit_deps\<close> is its loop over the dependency ids. The
  recursion ends because every call that goes on adds an id to the visited set.
\<close>

definition taskMap :: "FormulaTask list \<Rightarrow> string \<Rightarrow> FormulaTask option" where
  "taskMap tasks = map_of (rev (map (\<lambda>t. (task_id t, t)) tasks))"

function (domintros)
  visit :: "FormulaTask list \<Rightarrow> FormulaTask \<Rightarrow> string set \<times> FormulaTask list
              \<Rightarrow> string set \<times> FormulaTask list"
  and visit_deps :: "FormulaTask list \<Rightarrow> string list \<Rightarrow> string set \<times> FormulaTask list
              \<Rightarrow> string set \<times> FormulaTask list"
where
  "visit tasks task (visited, result) =
    (if task_id task \<in> visited then (visited, result)
     else
       (case visit_deps tasks (case task_dependencies task of None \<Rightarrow> [] | Some ds \<Rightarrow> ds)
               (insert (task_id task) visited, result) of
          (visited', result') \<Rightarrow> (visited', result' @ [task])))"
| "visit_deps tasks [] st = st"
| "visit_deps tasks (depId # rest) st =
    (case taskMap tasks depId of
       None \<Rightarrow> visit_deps tasks rest st
     | Some dep \<Rightarrow> visit_deps tasks rest (visit tasks dep st))"
  by pat_completeness auto


lemma taskMap_Some:
  "taskMap tasks d = Some t \<Longrightarrow> t \<in> set tasks \<and> task_id t = d"
  unfolding taskMap_def by (auto dest!: map_of_SomeD)

lemma visit_visited_mono_dom:
  "visit_visit_deps_dom (Inl (tasks, task, st)) \<Longrightarrow> fst st \<subseteq> fst (visit tasks task st)"
  "visit_visit_deps_dom (Inr (tasks, ds, st)) \<Longrightarrow> fst st \<subseteq> fst (visit_deps tasks ds st)"
proof (induction tasks task st and tasks ds st rule: visit_visit_deps.pinduct)
  case (1 tasks task visited result)
  then show ?case
    by (auto simp: visit.psimps split: prod.splits)
next
  case (2 tasks st)
  then show ?case by (simp add: visit_deps.psimps)
next
  case (3 tasks depId rest st)
  show ?case
  proof (cases "taskMap tasks depId")
    case None
    with 3 show ?thesis by (simp add: visit_deps.psimps)
  next
    case (Some dep)
    with 3 have "fst st \<subseteq> fst (visit tasks dep st)"
      and "fst (visit tasks dep st) \<subseteq> fst (visit_deps tasks rest (visit tasks dep st))"
      by auto
    then have "fst st \<subseteq> fst (visit_deps tasks rest (visit tasks dep st))"
      by (rule subset_trans)
    with 3(1) Some show ?thesis by (simp add: visit_deps.psimps)
  qed
qed

definition visit_measure ::
  "(FormulaTask list \<times> FormulaTask \<times> string set \<times> FormulaTask list) +
   (FormulaTask list \<times> string list \<times> string set \<times> FormulaTask list) \<Rightarrow> nat \<times> nat \<times> nat" where
  "visit_measure x =
    (case x of
       Inl (tasks, t, st) \<Rightarrow> (card ((task_id ` set tasks \<union> {task_id t}) - fst st), 0, 0)
     | Inr (tasks, ds, st) \<Rightarrow> (card (task_id ` set tasks - fst st), 1, length ds))"

termination visit
proof (relation "inv_image (less_than <*lex*> less_than <*lex*> less_than) visit_measure",
    goal_cases)
  case 1
  show ?case by (intro wf_inv_image wf_lex_prod wf_less_than)
next
  case (2 tasks task visited result)
  have fin: "finite ((task_id ` set tasks \<union> {task_id task}) - visited)" by simp
  have "task_id ` set tasks - insert (task_id task) visited
          \<subset> (task_id ` set tasks \<union> {task_id task}) - visited"
    using 2 by auto
  from psubset_card_mono[OF fin this] show ?case
    by (simp add: visit_measure_def)
next
  case (3 tasks depId rest st)
  show ?case by (simp add: visit_measure_def)
next
  case (4 tasks depId rest st dep)
  from taskMap_Some[OF 4] have "task_id ` set tasks \<union> {task_id dep} = task_id ` set tasks"
    by auto
  then show ?case by (simp add: visit_measure_def)
next
  case (5 tasks depId rest st dep)
  from visit_visited_mono_dom(1)[OF 5(2)]
  have "task_id ` set tasks - fst (visit tasks dep st) \<subseteq> task_id ` set tasks - fst st"
    by auto
  then have "card (task_id ` set tasks - fst (visit tasks dep st))
               \<le> card (task_id ` set tasks - fst st)"
    by (intro card_mono) auto
  then show ?case by (auto simp: visit_measure_def)
qed

definition topologicalSort :: "FormulaTask list \<Rightarrow> FormulaTask list" where
  "topologicalSort tasks = snd (fold (visit tasks) tasks ({}, []))"


text \<open>The notions the ordering property speaks about: the dependencies a task lists, the
  edges of the dependency graph restricted to the ids present in the input, the position
  of one element before another in a list, and a task with the absent ids removed from its
  dependency list.\<close>

definition deps_of :: "FormulaTask \<Rightarrow> string list" where
  "deps_of t = (case task_dependencies t of None \<Rightarrow> [] | Some ds \<Rightarrow> ds)"

definition dep_edges :: "FormulaTask list \<Rightarrow> (string \<times> string) list" where
  "dep_edges tasks =
    concat (map (\<lambda>a. map (\<lambda>d. (task_id a, d))
                        (filter (\<lambda>d. d \<in> set (map task_id tasks)) (deps_of a))) tasks)"

definition appears_before :: "'a list \<Rightarrow> 'a \<Rightarrow> 'a \<Rightarrow> bool" where
  "appears_before xs b a = (a \<in> set xs \<and> b \<in> set (takeWhile (\<lambda>x. x \<noteq> a) xs))"

definition present_only :: "FormulaTask list \<Rightarrow> FormulaTask \<Rightarrow> FormulaTask" where
  "present_only tasks t =
    t\<lparr>task_dependencies :=
        map_option (filter (\<lambda>d. d \<in> set (map task_id tasks))) (task_dependencies t)\<rparr>"

text \<open>Invariants of the depth-first traversal: the result lists every task after the
  present dependencies it names (\<open>ordered_from\<close>); the ids of the result are visited and its
  tasks come from the input (\<open>inv_pre\<close>); the ids visited but not yet in the result are those
  of the calls in progress (\<open>grey\<close>); a call appends to the result and adds the ids of what
  it appends to the visited set (\<open>visit_post\<close>).\<close>

fun ordered_from :: "string set \<Rightarrow> string set \<Rightarrow> FormulaTask list \<Rightarrow> bool" where
  "ordered_from ids seen [] = True"
| "ordered_from ids seen (x # xs) =
    (list_all (\<lambda>d. d \<in> ids \<longrightarrow> d \<in> seen) (deps_of x) \<and>
     ordered_from ids (insert (task_id x) seen) xs)"

definition inv_pre :: "FormulaTask list \<Rightarrow> string set \<times> FormulaTask list \<Rightarrow> bool" where
  "inv_pre tasks st =
    (task_id ` set (snd st) \<subseteq> fst st \<and> set (snd st) \<subseteq> set tasks \<and>
     ordered_from (task_id ` set tasks) {} (snd st))"

definition grey :: "string set \<times> FormulaTask list \<Rightarrow> string set" where
  "grey st = fst st - task_id ` set (snd st)"

definition visit_post ::
  "FormulaTask list \<Rightarrow> string set \<times> FormulaTask list \<Rightarrow> string set \<times> FormulaTask list \<Rightarrow> bool" where
  "visit_post tasks st st' =
    (\<exists>new. snd st' = snd st @ new \<and> fst st' = fst st \<union> task_id ` set new \<and>
           task_id ` set new \<inter> fst st = {} \<and> inv_pre tasks st')"

subsection \<open>executeTask\<close>

definition checkTaskVersion ::
    "env \<Rightarrow> call list \<Rightarrow> FormulaTask \<Rightarrow> VersionCheckResult \<times> call list" where
  "checkTaskVersion e h task =
    (case taskRegistry e (task_id task) of
       None \<Rightarrow>
         (\<lparr>installed = False, currentVersion = None, needsUpdate = True,
           message = ''Task not found in registry''\<rparr>, h)
     | Some taskInstance \<Rightarrow>
         checkVersion e h taskInstance
           (case task_version task of
              None \<Rightarrow> ''latest''
            | Some v \<Rightarrow> if v = [] then ''latest'' else v))"

text \<open>The loop over the steps of a task: \<open>Inl\<close> when a failed step that is not optional ends
  it, with the results so far; \<open>Inr\<close> when it runs to the end.\<close>

fun executeSteps ::
    "env \<Rightarrow> ExecutorOptions \<Rightarrow> InstallStep list \<Rightarrow> StepResult list \<Rightarrow> call list
      \<Rightarrow> (StepResult list + StepResult list) \<times> call list" where
  "executeSteps e opts [] stepResults h = (Inr stepResults, h)"
| "executeSteps e opts (step # rest) stepResults h =
    (if dryRun opts then
       executeSteps e opts rest
         (stepResults @ [\<lparr>sr_step = step, sr_success = True,
            sr_output = Some ''Dry run - no action taken'', sr_error = None\<rparr>]) h
     else
       (case stepExecute e h step of
          (result, h') \<Rightarrow>
            if sr_success result then executeSteps e opts rest (stepResults @ [result]) h'
            else if step_optional step = Some True then
              executeSteps e opts rest (stepResults @ [result]) h'
            else (Inl (stepResults @ [result]), h')))"

definition intercalate :: "string \<Rightarrow> string list \<Rightarrow> string" where
  "intercalate sep xs = (case xs of [] \<Rightarrow> [] | y # ys \<Rightarrow> y @ concat (map (\<lambda>z. sep @ z) ys))"

text \<open>Lines 135 to 195 of \<open>executeTask\<close>: the steps, then the check after the installation
  (whose result only changes what is printed).\<close>

definition installTask ::
    "env \<Rightarrow> ExecutorOptions \<Rightarrow> FormulaTask \<Rightarrow> executor_state \<Rightarrow> TaskResult \<times> executor_state" where
  "installTask e opts task st =
    (case executeSteps e opts (task_steps task) [] (history st) of
       (Inl stepResults, h2) \<Rightarrow>
         (\<lparr>tr_task = task, tr_success = False, tr_steps = stepResults,
           tr_skipped = False, tr_skipReason = None\<rparr>, st\<lparr>history := h2\<rparr>)
     | (Inr stepResults, h2) \<Rightarrow>
         (case checkTaskVersion e h2 task of
            (postCheck, h3) \<Rightarrow>
              (\<lparr>tr_task = task, tr_success = True, tr_steps = stepResults,
                tr_skipped = False, tr_skipReason = None\<rparr>, st\<lparr>history := h3\<rparr>)))"

definition executeTask ::
    "env \<Rightarrow> ExecutorOptions \<Rightarrow> FormulaTask \<Rightarrow> executor_state \<Rightarrow> TaskResult \<times> executor_state" where
  "executeTask e opts task st =
    (let missingDeps =
           (case task_dependencies task of
              None \<Rightarrow> []
            | Some deps \<Rightarrow> filter (\<lambda>dep. dep \<notin> installedTasks st) deps)
     in
     if missingDeps \<noteq> [] then
       (\<lparr>tr_task = task, tr_success = False, tr_steps = [], tr_skipped = True,
         tr_skipReason = Some (''Missing dependencies: '' @ intercalate '', '' missingDeps)\<rparr>, st)
     else if \<not> forceInstall opts \<and> \<not> skipVersionCheck opts \<and> \<not> dryRun opts then
       (case checkTaskVersion e (history st) task of
          (versionCheck, h1) \<Rightarrow>
            if installed versionCheck \<and> \<not> needsUpdate versionCheck then
              (\<lparr>tr_task = task, tr_success = True, tr_steps = [], tr_skipped = True,
                tr_skipReason = Some (message versionCheck)\<rparr>, st\<lparr>history := h1\<rparr>)
            else installTask e opts task (st\<lparr>history := h1\<rparr>))
     else installTask e opts task st)"

subsection \<open>execute\<close>

definition filterTasks :: "ResolvedFormula \<Rightarrow> ExecutorOptions \<Rightarrow> FormulaTask list" where
  "filterTasks formula opts =
    (let tasks1 = (case selectedTasks opts of
                     None \<Rightarrow> f_tasks formula
                   | Some sel \<Rightarrow> if sel = [] then f_tasks formula
                                 else filter (\<lambda>task. task_id task \<in> set sel) (f_tasks formula))
     in case selectedCategories opts of
          None \<Rightarrow> tasks1
        | Some cats \<Rightarrow> if cats = [] then tasks1
                       else filter (\<lambda>task. task_category task \<noteq> [] \<and> task_category task \<in> set cats)
                              tasks1)"

text \<open>The loop of \<open>execute\<close> over the sorted tasks.\<close>

fun executeAll ::
    "env \<Rightarrow> ExecutorOptions \<Rightarrow> FormulaTask list \<Rightarrow> TaskResult list \<Rightarrow> executor_state
      \<Rightarrow> TaskResult list \<times> executor_state" where
  "executeAll e opts [] taskResults st = (taskResults, st)"
| "executeAll e opts (task # rest) taskResults st =
    (case executeTask e opts task st of
       (result, st') \<Rightarrow>
         if tr_success result \<or> tr_skipped result then
           executeAll e opts rest (taskResults @ [result])
             (st'\<lparr>installedTasks := insert (task_id task) (installedTasks st')\<rparr>)
         else if \<not> continueOnError opts then (taskResults @ [result], st')
         else executeAll e opts rest (taskResults @ [result]) st')"

definition execute ::
    "env \<Rightarrow> ResolvedFormula \<Rightarrow> ExecutorOptions \<Rightarrow> executor_state
      \<Rightarrow> InstallResult \<times> executor_state" where
  "execute e formula opts st =
    (let tasksToInstall = filterTasks formula opts in
     if tasksToInstall = [] then
       (\<lparr>ir_formula = formula, ir_success = True, ir_tasks = []\<rparr>, st)
     else
       (case executeAll e opts (topologicalSort tasksToInstall) [] st of
          (taskResults, st') \<Rightarrow>
            (\<lparr>ir_formula = formula,
              ir_success = list_all (\<lambda>r. tr_success r \<or> tr_skipped r) taskResults,
              ir_tasks = taskResults\<rparr>, st')))"

text \<open>Two values the properties below speak about: \<open>missingDeps\<close> as \<open>executeTask\<close>
  computes it, and the ids of the results that the loop of \<open>execute\<close> adds to the installed
  set.\<close>

definition missing_of :: "FormulaTask \<Rightarrow> executor_state \<Rightarrow> string list" where
  "missing_of task st =
    (case task_dependencies task of None \<Rightarrow> []
     | Some deps \<Rightarrow> filter (\<lambda>dep. dep \<notin> installedTasks st) deps)"

definition counted :: "TaskResult list \<Rightarrow> string set" where
  "counted rs = set (map (\<lambda>r. task_id (tr_task r)) (filter (\<lambda>r. tr_success r \<or> tr_skipped r) rs))"

text \<open>For the re-run property: the calls that spawn a command (the version check uses
  \<open>execSync\<close>, a step uses \<open>spawn\<close>); a machine state on which the version check of a task
  always succeeds and always parses to a given version; and a task result that is skipped,
  a success and without steps.\<close>

fun is_spawn :: "call \<Rightarrow> bool" where
  "is_spawn (Spawn cmd as ev wd) = True"
| "is_spawn (ExecSync cmd) = False"

definition reports_version :: "env \<Rightarrow> FormulaTask \<Rightarrow> string \<Rightarrow> bool" where
  "reports_version e t v =
    (\<exists>inst cmd. taskRegistry e (task_id t) = Some inst \<and>
        bt_versionCommand inst = Some cmd \<and> cmd \<noteq> [] \<and>
        (\<forall>h. \<exists>out err. respond e h (ExecSync cmd) = Exited (Some 0) out err \<and>
                parseVersion e inst (trim out) = Returns (Some v)))"

definition skipped_ok :: "TaskResult \<Rightarrow> bool" where
  "skipped_ok r = (tr_skipped r \<and> tr_success r \<and> tr_steps r = [])"

section \<open>Example machines and tasks\<close>

text \<open>A bundled task that uses the default version pattern, and a machine on which every
  version command has one outcome and every spawned command another.\<close>

definition git_task :: BaseTask where
  "git_task = \<lparr>bt_id = ''git'', bt_name = ''Git'', bt_versionCommand = Some ''git --version'',
     bt_versionParseRegex = None\<rparr>"

definition machine :: "outcome \<Rightarrow> outcome \<Rightarrow> env" where
  "machine versionOutcome installOutcome =
    \<lparr>currentPlatform = ''linux'',
     taskRegistry = (\<lambda>i. if i = ''git'' then Some git_task else None),
     respond = (\<lambda>h c. case c of ExecSync cmd \<Rightarrow> versionOutcome
                             | Spawn cmd as ev wd \<Rightarrow> installOutcome),
     regexp_group1 = (\<lambda>pattern subject. Returns None)\<rparr>"

text \<open>A task of a formula with one \<open>brew\<close> step and the constraint \<open>^2.0.0\<close>, a formula
  of given tasks, the options of a plain run, and a machine where every version command
  prints \<open>git version 2.39.1\<close> and every spawned command succeeds.\<close>

definition tool :: "string \<Rightarrow> string list option \<Rightarrow> FormulaTask" where
  "tool i deps =
    \<lparr>task_id = i, task_name = i,
     task_steps = [\<lparr>step_name = ''Install '' @ i, step_type = ''brew'', step_command = i,
                    step_args = None, step_optional = None, step_platforms = None,
                    step_env = None, step_cwd = None, step_postInstall = None\<rparr>],
     task_dependencies = deps, task_category = ''tools'', task_version = Some ''^2.0.0''\<rparr>"

definition formula_of :: "FormulaTask list \<Rightarrow> ResolvedFormula" where
  "formula_of ts = \<lparr>f_name = ''dev'', f_version = ''1.0.0'', f_tasks = ts\<rparr>"

definition default_options :: ExecutorOptions where
  "default_options = \<lparr>selectedTasks = None, selectedCategories = None, dryRun = False,
     verbose = False, continueOnError = False, forceInstall = False, skipVersionCheck = False\<rparr>"

definition installed_machine :: env where
  "installed_machine = machine (Exited (Some 0) ''git version 2.39.1'' []) (Exited (Some 0) [] [])"

text \<open>A \<open>brew\<close> step, a machine on which every command fails, and a task of three steps
  whose first step is optional.\<close>

definition brew_step :: "string \<Rightarrow> bool option \<Rightarrow> InstallStep" where
  "brew_step pkg opt =
    \<lparr>step_name = ''Install '' @ pkg, step_type = ''brew'', step_command = pkg,
     step_args = None, step_optional = opt, step_platforms = None,
     step_env = None, step_cwd = None, step_postInstall = None\<rparr>"

definition failing_machine :: env where
  "failing_machine = machine (Exited (Some 127) [] ''sh: tool: not found'') (Exited (Some 1) [] [])"

definition three_steps :: FormulaTask where
  "three_steps =
    \<lparr>task_id = ''kit'', task_name = ''Kit'',
     task_steps = [brew_step ''jq'' (Some True), brew_step ''gh'' None, brew_step ''fzf'' None],
     task_dependencies = None, task_category = ''tools'', task_version = None\<rparr>"

text \<open>A machine on which every task is in the registry and every version command prints
  \<open>2.0.0\<close>.\<close>

definition machine_2_0_0 :: env where
  "machine_2_0_0 =
    \<lparr>currentPlatform = ''linux'',
     taskRegistry = (\<lambda>i. Some \<lparr>bt_id = i, bt_name = i,
                             bt_versionCommand = Some (i @ '' --version''),
                             bt_versionParseRegex = None\<rparr>),
     respond = (\<lambda>h c. case c of ExecSync cmd \<Rightarrow> Exited (Some 0) ''2.0.0'' []
                             | Spawn cmd as ev wd \<Rightarrow> Exited (Some 0) [] []),
     regexp_group1 = (\<lambda>pattern subject. Returns None)\<rparr>"

section \<open>Properties\<close>

text \<open>
  C9. For a step whose type is one of the seven values the validator accepts,
  \<open>buildCommand\<close> returns a command with its arguments: the command is the one the
  \<open>switch\<close> selects for that type, and the ``Unknown step type'' error is not produced.
\<close>

theorem buildCommand_valid_type:
  assumes "step_type step \<in> set validTypes"
  shows "(\<exists>cmd as. buildCommand step = Inr (cmd, as)) \<and> (\<forall>m. buildCommand step \<noteq> Inl m)"
  using assms by (auto simp: validTypes_def buildCommand_def)

theorem buildCommand_valid_type_witness:
  "step_type \<lparr>step_name = ''Install Git'', step_type = ''apt'', step_command = ''git'', step_args = None,
      step_optional = None, step_platforms = None, step_env = None, step_cwd = None, step_postInstall = None\<rparr>
     \<in> set validTypes \<and>
   buildCommand \<lparr>step_name = ''Install Git'', step_type = ''apt'', step_command = ''git'', step_args = None,
      step_optional = None, step_platforms = None, step_env = None, step_cwd = None, step_postInstall = None\<rparr>
     = Inr (''sudo'', [''apt-get'', ''install'', ''-y'', ''git''])"
  using buildCommand_valid_type [of "\<lparr>step_name = ''Install Git'', step_type = ''apt'',
      step_command = ''git'', step_args = None, step_optional = None, step_platforms = None, step_env = None,
      step_cwd = None, step_postInstall = None\<rparr>"]
  by (simp add: validTypes_def buildCommand_def)

subsection \<open>The version constraint matcher\<close>

lemma starts_with_Nil [simp]: "starts_with s [] = True"
  by (cases s) simp_all

lemma satisfiesVersion_unparsed:
  "parseVersionParts version = None \<Longrightarrow> satisfiesVersion version c = False"
  by (subst satisfiesVersion.simps) simp

lemma satisfiesVersion_any_Some:
  assumes "parseVersionParts version = Some v"
    and "trim c = ''latest'' \<or> trim c = ''*'' \<or> trim c = ''x'' \<or> trim c = []"
  shows "satisfiesVersion version c"
  apply (subst satisfiesVersion.simps)
  apply (simp only: assms(1) option.case Let_def)
  using assms(2) apply simp
  done



text \<open>
  C5. The claim that \<open>satisfiesVersion v "latest"\<close> is true for every string \<open>v\<close> fails:
  the function first reads the version with \<open>parseVersionParts\<close> and answers false when that
  fails, before it looks at the constraint.
\<close>

theorem satisfiesVersion_latest_counterexample:
  "\<not> satisfiesVersion ''abc'' ''latest''"
  by code_simp

text \<open>
  C5, as amended. For a constraint that is, once trimmed, \<open>latest\<close>, \<open>*\<close>, \<open>x\<close> or the empty
  string, \<open>satisfiesVersion v c\<close> is true exactly when \<open>parseVersionParts\<close> can read \<open>v\<close>
  (after an optional leading \<open>v\<close>, it starts with a digit).
\<close>

theorem satisfiesVersion_any_parsed:
  assumes "trim c \<in> set [''latest'', ''*'', ''x'', '''']"
  shows "satisfiesVersion v c = (parseVersionParts v \<noteq> None)"
proof (cases "parseVersionParts v")
  case None
  then show ?thesis by (simp add: satisfiesVersion_unparsed)
next
  case (Some p)
  from assms have "trim c = ''latest'' \<or> trim c = ''*'' \<or> trim c = ''x'' \<or> trim c = []"
    by simp
  from satisfiesVersion_any_Some[OF Some this] Some show ?thesis by simp
qed


theorem satisfiesVersion_any_parsed_witness:
  "trim ''latest'' \<in> set [''latest'', ''*'', ''x'', ''''] \<and> satisfiesVersion ''v2.39.1'' ''latest''
    \<and> parseVersionParts ''v2.39.1'' = Some \<lparr>major = 2, minor = 39, patch = 1\<rparr>"
proof -
  have h: "trim ''latest'' \<in> set [''latest'', ''*'', ''x'', '''']" by code_simp
  have p: "parseVersionParts ''v2.39.1'' = Some \<lparr>major = 2, minor = 39, patch = 1\<rparr>" by code_simp
  from satisfiesVersion_any_parsed[OF h, of "''v2.39.1''"] p h show ?thesis by simp
qed















subsection \<open>The version check\<close>

text \<open>
  C7. \<open>checkVersion\<close>: without a version command (absent or empty) the result is not
  installed and needs an update; so it is when the command does not exit with code 0; when
  the command succeeds and \<open>parseVersion\<close> returns nothing (or the empty string) the result
  is installed and needs no update; when it returns a version, the result is installed with
  that version and needs an update exactly when the version does not satisfy the desired
  constraint.
\<close>

theorem checkVersion_postconditions:
  "(bt_versionCommand t = None \<or> bt_versionCommand t = Some [] \<longrightarrow>
      \<not> installed (fst (checkVersion e h t desired)) \<and>
      needsUpdate (fst (checkVersion e h t desired))) \<and>
   (bt_versionCommand t = Some cmd \<and> cmd \<noteq> [] \<and>
    (\<forall>out err. respond e h (ExecSync cmd) \<noteq> Exited (Some 0) out err) \<longrightarrow>
      \<not> installed (fst (checkVersion e h t desired)) \<and>
      needsUpdate (fst (checkVersion e h t desired))) \<and>
   (bt_versionCommand t = Some cmd \<and> cmd \<noteq> [] \<and>
    respond e h (ExecSync cmd) = Exited (Some 0) out err \<and>
    (parseVersion e t (trim out) = Returns None \<or>
     parseVersion e t (trim out) = Returns (Some [])) \<longrightarrow>
      installed (fst (checkVersion e h t desired)) \<and>
      \<not> needsUpdate (fst (checkVersion e h t desired))) \<and>
   (bt_versionCommand t = Some cmd \<and> cmd \<noteq> [] \<and>
    respond e h (ExecSync cmd) = Exited (Some 0) out err \<and>
    parseVersion e t (trim out) = Returns (Some cur) \<and> cur \<noteq> [] \<longrightarrow>
      installed (fst (checkVersion e h t desired)) \<and>
      currentVersion (fst (checkVersion e h t desired)) = Some cur \<and>
      needsUpdate (fst (checkVersion e h t desired)) = (\<not> satisfiesVersion cur desired))"
proof (intro conjI impI)
  assume "bt_versionCommand t = None \<or> bt_versionCommand t = Some []"
  then show "\<not> installed (fst (checkVersion e h t desired))"
    and "needsUpdate (fst (checkVersion e h t desired))"
    by (auto simp: checkVersion_def Let_def)
next
  assume a: "bt_versionCommand t = Some cmd \<and> cmd \<noteq> [] \<and>
    (\<forall>out err. respond e h (ExecSync cmd) \<noteq> Exited (Some 0) out err)"
  then show "\<not> installed (fst (checkVersion e h t desired))"
    and "needsUpdate (fst (checkVersion e h t desired))"
    by (auto simp: checkVersion_def Let_def split: outcome.splits)
next
  assume a: "bt_versionCommand t = Some cmd \<and> cmd \<noteq> [] \<and>
    respond e h (ExecSync cmd) = Exited (Some 0) out err \<and>
    (parseVersion e t (trim out) = Returns None \<or>
     parseVersion e t (trim out) = Returns (Some []))"
  then show "installed (fst (checkVersion e h t desired))"
    and "\<not> needsUpdate (fst (checkVersion e h t desired))"
    by (auto simp: checkVersion_def Let_def)
next
  assume a: "bt_versionCommand t = Some cmd \<and> cmd \<noteq> [] \<and>
    respond e h (ExecSync cmd) = Exited (Some 0) out err \<and>
    parseVersion e t (trim out) = Returns (Some cur) \<and> cur \<noteq> []"
  then show "installed (fst (checkVersion e h t desired))"
    and "currentVersion (fst (checkVersion e h t desired)) = Some cur"
    and "needsUpdate (fst (checkVersion e h t desired)) = (\<not> satisfiesVersion cur desired)"
    by (auto simp: checkVersion_def Let_def)
qed


theorem checkVersion_postconditions_witness:
  "needsUpdate (fst (checkVersion (machine (Exited (Some 0) ''git version 2.39.1'' []) (SpawnError []))
      [] (git_task\<lparr>bt_versionCommand := None\<rparr>) ''latest'')) \<and>
   needsUpdate (fst (checkVersion (machine (Exited (Some 127) [] ''sh: git: not found'') (SpawnError []))
      [] git_task ''latest'')) \<and>
   \<not> needsUpdate (fst (checkVersion (machine (Exited (Some 0) ''git is here'' []) (SpawnError []))
      [] git_task ''^2.0.0'')) \<and>
   \<not> needsUpdate (fst (checkVersion (machine (Exited (Some 0) ''git version 2.39.1'' []) (SpawnError []))
      [] git_task ''^2.0.0'')) \<and>
   needsUpdate (fst (checkVersion (machine (Exited (Some 0) ''git version 2.39.1'' []) (SpawnError []))
      [] git_task ''^3.0.0''))"
proof -
  let ?m1 = "machine (Exited (Some 0) ''git version 2.39.1'' []) (SpawnError [])"
  let ?m2 = "machine (Exited (Some 127) [] ''sh: git: not found'') (SpawnError [])"
  let ?m3 = "machine (Exited (Some 0) ''git is here'' []) (SpawnError [])"
  have c1: "bt_versionCommand (git_task\<lparr>bt_versionCommand := None\<rparr>) = None"
    by (simp add: git_task_def)
  have cmd: "bt_versionCommand git_task = Some ''git --version'' \<and> ''git --version'' \<noteq> []"
    by (simp add: git_task_def)
  have c2: "\<forall>out err. respond ?m2 [] (ExecSync ''git --version'') \<noteq> Exited (Some 0) out err"
    by (simp add: machine_def)
  have r3: "respond ?m3 [] (ExecSync ''git --version'') = Exited (Some 0) ''git is here'' []"
    by (simp add: machine_def)
  have p3: "parseVersion ?m3 git_task (trim ''git is here'') = Returns None"
    by code_simp
  have r4: "respond ?m1 [] (ExecSync ''git --version'') = Exited (Some 0) ''git version 2.39.1'' []"
    by (simp add: machine_def)
  have p4: "parseVersion ?m1 git_task (trim ''git version 2.39.1'') = Returns (Some ''2.39.1'')"
    by code_simp
  have s4: "satisfiesVersion ''2.39.1'' ''^2.0.0''" by code_simp
  have s5: "\<not> satisfiesVersion ''2.39.1'' ''^3.0.0''" by code_simp
  have w1: "needsUpdate (fst (checkVersion ?m1 [] (git_task\<lparr>bt_versionCommand := None\<rparr>) ''latest''))"
    using checkVersion_postconditions[of "git_task\<lparr>bt_versionCommand := None\<rparr>" ?m1 "[]" "''latest''"]
      c1 by blast
  have w2: "needsUpdate (fst (checkVersion ?m2 [] git_task ''latest''))"
    using checkVersion_postconditions[of git_task ?m2 "[]" "''latest''" "''git --version''"]
      cmd c2 by blast
  have w3: "\<not> needsUpdate (fst (checkVersion ?m3 [] git_task ''^2.0.0''))"
    using checkVersion_postconditions[of git_task ?m3 "[]" "''^2.0.0''" "''git --version''"
        "''git is here''" "[]"] cmd r3 p3 by blast
  have w4: "\<not> needsUpdate (fst (checkVersion ?m1 [] git_task ''^2.0.0''))"
    using checkVersion_postconditions[of git_task ?m1 "[]" "''^2.0.0''" "''git --version''"
        "''git version 2.39.1''" "[]" "''2.39.1''"] cmd r4 p4 s4 by simp
  have w5: "needsUpdate (fst (checkVersion ?m1 [] git_task ''^3.0.0''))"
    using checkVersion_postconditions[of git_task ?m1 "[]" "''^3.0.0''" "''git --version''"
        "''git version 2.39.1''" "[]" "''2.39.1''"] cmd r4 p4 s5 by simp
  from w1 w2 w3 w4 w5 show ?thesis by blast
qed

subsection \<open>The dependency scheduler\<close>

lemma ordered_from_append:
  "ordered_from ids seen (xs @ ys) =
     (ordered_from ids seen xs \<and> ordered_from ids (seen \<union> task_id ` set xs) ys)"
  by (induction xs arbitrary: seen) (auto simp: Un_insert_left[symmetric] simp del: Un_insert_left)

lemma ordered_from_before:
  "ordered_from ids seen xs \<Longrightarrow> x \<in> set xs \<Longrightarrow> d \<in> set (deps_of x) \<Longrightarrow> d \<in> ids \<Longrightarrow>
     d \<in> seen \<union> task_id ` set (takeWhile (\<lambda>y. y \<noteq> x) xs)"
proof (induction xs arbitrary: seen)
  case Nil
  then show ?case by simp
next
  case (Cons y ys)
  show ?case
  proof (cases "y = x")
    case True
    with Cons.prems show ?thesis by (auto simp: list_all_iff)
  next
    case False
    with Cons.prems have "d \<in> insert (task_id y) seen \<union> task_id ` set (takeWhile (\<lambda>y. y \<noteq> x) ys)"
      by (intro Cons.IH) auto
    with False show ?thesis by auto
  qed
qed

lemma taskMap_None: "taskMap tasks d = None \<Longrightarrow> d \<notin> task_id ` set tasks"
  unfolding taskMap_def by (force simp: map_of_eq_None_iff)

lemma dep_edge:
  "p \<in> set tasks \<Longrightarrow> d \<in> set (deps_of p) \<Longrightarrow> d \<in> task_id ` set tasks \<Longrightarrow>
     (task_id p, d) \<in> set (dep_edges tasks)"
  by (auto simp: dep_edges_def)

lemma grey_visit_post:
  assumes "visit_post tasks st st'"
  shows "grey st' = grey st"
proof -
  from assms obtain new where n: "snd st' = snd st @ new" "fst st' = fst st \<union> task_id ` set new"
    "task_id ` set new \<inter> fst st = {}" by (auto simp: visit_post_def)
  then show ?thesis unfolding grey_def by auto
qed

lemma visit_post_refl: "inv_pre tasks st \<Longrightarrow> visit_post tasks st st"
  by (auto simp: visit_post_def)

lemma visit_post_trans:
  assumes "visit_post tasks st st1" and "visit_post tasks st1 st2"
  shows "visit_post tasks st st2"
proof -
  from assms(1) obtain n1 where 1: "snd st1 = snd st @ n1" "fst st1 = fst st \<union> task_id ` set n1"
    "task_id ` set n1 \<inter> fst st = {}" by (auto simp: visit_post_def)
  from assms(2) obtain n2 where 2: "snd st2 = snd st1 @ n2" "fst st2 = fst st1 \<union> task_id ` set n2"
    "task_id ` set n2 \<inter> fst st1 = {}" "inv_pre tasks st2" by (auto simp: visit_post_def)
  have "snd st2 = snd st @ (n1 @ n2)" using 1 2 by simp
  moreover have "fst st2 = fst st \<union> task_id ` set (n1 @ n2)" using 1 2 by auto
  moreover have "task_id ` set (n1 @ n2) \<inter> fst st = {}" using 1 2 by auto
  ultimately show ?thesis using 2(4) unfolding visit_post_def by blast
qed

lemma visit_post_mono: "visit_post tasks st st' \<Longrightarrow> set (snd st) \<subseteq> set (snd st')"
  by (auto simp: visit_post_def)


lemma cycle_free:
  assumes "acyclic E" and "(x, y) \<in> E" and "(y, x) \<in> E\<^sup>*"
  shows False
proof -
  from assms(2,3) have "(x, x) \<in> E\<^sup>+" by (rule rtrancl_into_trancl2)
  with assms(1) show False by (simp add: acyclic_def)
qed

lemma visit_invariant:
  shows "acyclic (set (dep_edges tasks)) \<Longrightarrow> t \<in> set tasks \<Longrightarrow> inv_pre tasks st \<Longrightarrow>
     (\<forall>g\<in>grey st. (g, task_id t) \<in> (set (dep_edges tasks))\<^sup>*) \<Longrightarrow>
     visit_post tasks st (visit tasks t st) \<and>
     (task_id t \<in> task_id ` set (snd (visit tasks t st)) \<or> task_id t \<in> grey st)"
  and "acyclic (set (dep_edges tasks)) \<Longrightarrow> inv_pre tasks st \<Longrightarrow>
     (\<exists>p. p \<in> set tasks \<and> set ds \<subseteq> set (deps_of p) \<and> task_id p \<in> grey st \<and>
          (\<forall>g\<in>grey st. (g, task_id p) \<in> (set (dep_edges tasks))\<^sup>*)) \<Longrightarrow>
     visit_post tasks st (visit_deps tasks ds st) \<and>
     (\<forall>d\<in>set ds. d \<in> task_id ` set tasks \<longrightarrow> d \<in> task_id ` set (snd (visit_deps tasks ds st)))"
proof (induction tasks t st and tasks ds st rule: visit_visit_deps.induct)
  case (1 tasks task visited result)
  let ?E = "set (dep_edges tasks)"
  show ?case
  proof (cases "task_id task \<in> visited")
    case True
    with 1(4) show ?thesis by (auto simp: visit_post_refl grey_def)
  next
    case False
    let ?st1 = "(insert (task_id task) visited, result)"
    let ?ds = "case task_dependencies task of None \<Rightarrow> [] | Some ds \<Rightarrow> ds"
    let ?st2 = "visit_deps tasks ?ds ?st1"
    from 1(4) have sub: "task_id ` set result \<subseteq> visited" by (simp add: inv_pre_def)
    with False have notin: "task_id task \<notin> task_id ` set result" by auto
    from 1(4) have pre1: "inv_pre tasks ?st1" by (auto simp: inv_pre_def)
    have g1: "grey ?st1 = insert (task_id task) (grey (visited, result))"
      using notin by (auto simp: grey_def)
    have reach: "\<forall>g\<in>grey ?st1. (g, task_id task) \<in> ?E\<^sup>*"
      using 1(5) g1 by auto
    have "\<exists>p. p \<in> set tasks \<and> set ?ds \<subseteq> set (deps_of p) \<and> task_id p \<in> grey ?st1 \<and>
          (\<forall>g\<in>grey ?st1. (g, task_id p) \<in> ?E\<^sup>*)"
      using 1(3) reach g1 by (intro exI[of _ task]) (auto simp: deps_of_def)
    from 1(1)[OF False 1(2) pre1 this]
    have post: "visit_post tasks ?st1 ?st2"
      and fin_ds: "\<forall>d\<in>set ?ds. d \<in> task_id ` set tasks \<longrightarrow> d \<in> task_id ` set (snd ?st2)"
      by blast+
    from post obtain new where new: "snd ?st2 = result @ new"
      "fst ?st2 = insert (task_id task) visited \<union> task_id ` set new"
      "task_id ` set new \<inter> insert (task_id task) visited = {}" "inv_pre tasks ?st2"
      by (auto simp: visit_post_def)
    have res: "visit tasks task (visited, result) = (fst ?st2, snd ?st2 @ [task])"
      using False by (simp split: prod.splits)
    have ord: "ordered_from (task_id ` set tasks) {} (snd ?st2 @ [task])"
      using new(4) fin_ds by (auto simp: inv_pre_def ordered_from_append list_all_iff deps_of_def)
    have inv2: "inv_pre tasks (fst ?st2, snd ?st2 @ [task])"
      using new 1(3) ord by (auto simp: inv_pre_def)
    have "visit_post tasks (visited, result) (fst ?st2, snd ?st2 @ [task])"
      unfolding visit_post_def
    proof (intro exI[of _ "new @ [task]"] conjI)
      show "snd (fst ?st2, snd ?st2 @ [task]) = snd (visited, result) @ new @ [task]"
        using new(1) by simp
      show "fst (fst ?st2, snd ?st2 @ [task]) = fst (visited, result) \<union> task_id ` set (new @ [task])"
        using new(2) by auto
      show "task_id ` set (new @ [task]) \<inter> fst (visited, result) = {}"
        using new(3) False by auto
      show "inv_pre tasks (fst ?st2, snd ?st2 @ [task])" by (rule inv2)
    qed
    then show ?thesis unfolding res by simp
  qed
next
  case (2 tasks st)
  then show ?case by (simp add: visit_post_refl)
next
  case (3 tasks depId rest st)
  let ?E = "set (dep_edges tasks)"
  from 3(6) obtain p where p: "p \<in> set tasks" "set (depId # rest) \<subseteq> set (deps_of p)"
    "task_id p \<in> grey st" "\<forall>g\<in>grey st. (g, task_id p) \<in> ?E\<^sup>*" by blast
  show ?case
  proof (cases "taskMap tasks depId")
    case None
    have "\<exists>q. q \<in> set tasks \<and> set rest \<subseteq> set (deps_of q) \<and> task_id q \<in> grey st \<and>
          (\<forall>g\<in>grey st. (g, task_id q) \<in> ?E\<^sup>*)"
      using p by (intro exI[of _ p]) auto
    from 3(1)[OF None 3(4) 3(5) this] taskMap_None[OF None] None
    show ?thesis by simp
  next
    case (Some dep)
    from taskMap_Some[OF Some] have dep: "dep \<in> set tasks" "task_id dep = depId" by simp_all
    have edge: "(task_id p, depId) \<in> ?E"
      using p(1,2) dep by (intro dep_edge) auto
    have reach: "\<forall>g\<in>grey st. (g, task_id dep) \<in> ?E\<^sup>*"
      using p(4) edge dep(2) by (auto intro: rtrancl_into_rtrancl)
    let ?st1 = "visit tasks dep st"
    from 3(2)[OF Some 3(4) dep(1) 3(5) reach]
    have post1: "visit_post tasks st ?st1"
      and fin: "task_id dep \<in> task_id ` set (snd ?st1) \<or> task_id dep \<in> grey st" by blast+
    have "depId \<notin> grey st"
    proof
      assume "depId \<in> grey st"
      with p(4) have "(depId, task_id p) \<in> ?E\<^sup>*" by blast
      from cycle_free[OF 3(4) edge this] show False .
    qed
    with fin dep(2) have in1: "depId \<in> task_id ` set (snd ?st1)" by simp
    from post1 have pre1: "inv_pre tasks ?st1" by (auto simp: visit_post_def)
    have g: "grey ?st1 = grey st" by (rule grey_visit_post[OF post1])
    have "\<exists>q. q \<in> set tasks \<and> set rest \<subseteq> set (deps_of q) \<and> task_id q \<in> grey ?st1 \<and>
          (\<forall>g\<in>grey ?st1. (g, task_id q) \<in> ?E\<^sup>*)"
      using p g by (intro exI[of _ p]) auto
    from 3(3)[OF Some 3(4) pre1 this]
    have post2: "visit_post tasks ?st1 (visit_deps tasks rest ?st1)"
      and rest: "\<forall>d\<in>set rest. d \<in> task_id ` set tasks \<longrightarrow>
                   d \<in> task_id ` set (snd (visit_deps tasks rest ?st1))" by blast+
    from visit_post_mono[OF post2] in1
    have "depId \<in> task_id ` set (snd (visit_deps tasks rest ?st1))" by auto
    with rest visit_post_trans[OF post1 post2] Some show ?thesis by simp
  qed
qed


lemma fold_visit_invariant:
  assumes "acyclic (set (dep_edges tasks))"
  shows "set ts \<subseteq> set tasks \<Longrightarrow> inv_pre tasks st \<Longrightarrow> grey st = {} \<Longrightarrow>
     inv_pre tasks (fold (visit tasks) ts st) \<and> grey (fold (visit tasks) ts st) = {} \<and>
     task_id ` set (snd st) \<union> task_id ` set ts
       \<subseteq> task_id ` set (snd (fold (visit tasks) ts st))"
proof (induction ts arbitrary: st)
  case Nil
  then show ?case by simp
next
  case (Cons t ts)
  let ?st1 = "visit tasks t st"
  from Cons.prems have t: "t \<in> set tasks" by simp
  from visit_invariant(1)[OF assms t Cons.prems(2)] Cons.prems(3)
  have post: "visit_post tasks st ?st1" and fin: "task_id t \<in> task_id ` set (snd ?st1)"
    by auto
  from post have pre1: "inv_pre tasks ?st1" by (auto simp: visit_post_def)
  from grey_visit_post[OF post] Cons.prems(3) have g1: "grey ?st1 = {}" by simp
  from Cons.prems(1) have "set ts \<subseteq> set tasks" by simp
  from Cons.IH[OF this pre1 g1]
  have ih: "inv_pre tasks (fold (visit tasks) ts ?st1)" "grey (fold (visit tasks) ts ?st1) = {}"
    "task_id ` set (snd ?st1) \<subseteq> task_id ` set (snd (fold (visit tasks) ts ?st1))"
    "task_id ` set ts \<subseteq> task_id ` set (snd (fold (visit tasks) ts ?st1))"
    by auto
  from visit_post_mono[OF post] have "task_id ` set (snd st) \<subseteq> task_id ` set (snd ?st1)"
    by blast
  with ih(3) fin have "task_id ` set (snd st) \<union> {task_id t}
      \<subseteq> task_id ` set (snd (fold (visit tasks) ts ?st1))" by blast
  with ih show ?case by simp
qed

lemma topologicalSort_ordered:
  assumes "acyclic (set (dep_edges tasks))"
  shows "ordered_from (task_id ` set tasks) {} (topologicalSort tasks)"
    and "set (topologicalSort tasks) \<subseteq> set tasks"
    and "task_id ` set tasks \<subseteq> task_id ` set (topologicalSort tasks)"
proof -
  have "inv_pre tasks ({}, [])" "grey ({}, []) = {}"
    by (simp_all add: inv_pre_def grey_def)
  from fold_visit_invariant[OF assms subset_refl this]
  show "ordered_from (task_id ` set tasks) {} (topologicalSort tasks)"
    and "set (topologicalSort tasks) \<subseteq> set tasks"
    and "task_id ` set tasks \<subseteq> task_id ` set (topologicalSort tasks)"
    by (auto simp: topologicalSort_def inv_pre_def)
qed

lemma topologicalSort_before:
  assumes "distinct (map task_id tasks)" and "acyclic (set (dep_edges tasks))"
    and "A \<in> set tasks" and "B \<in> set tasks"
    and "task_dependencies A = Some ds" and "task_id B \<in> set ds"
  shows "appears_before (topologicalSort tasks) B A"
proof -
  note ts = topologicalSort_ordered[OF assms(2)]
  from assms(1) have inj: "inj_on task_id (set tasks)" by (simp add: distinct_map)
  from ts(3) assms(3) obtain A' where A': "A' \<in> set (topologicalSort tasks)" "task_id A' = task_id A"
    by (metis (no_types, opaque_lifting) image_iff subsetD)
  with ts(2) inj assms(3) have "A' = A" by (auto dest: inj_onD)
  with A' have inA: "A \<in> set (topologicalSort tasks)" by simp
  have "task_id B \<in> set (deps_of A)" using assms(5,6) by (simp add: deps_of_def)
  from ordered_from_before[OF ts(1) inA this] assms(4)
  obtain B' where B': "B' \<in> set (takeWhile (\<lambda>y. y \<noteq> A) (topologicalSort tasks))"
    "task_id B' = task_id B" by auto
  from B'(1) have "B' \<in> set (topologicalSort tasks)" by (rule set_takeWhileD[THEN conjunct1])
  with ts(2) inj assms(4) B'(2) have "B' = B" by (auto dest: inj_onD)
  with B'(1) inA show ?thesis by (simp add: appears_before_def)
qed

text \<open>
  C1. The claim fails for an input in which two tasks share an id: the traversal keeps
  one task per id, the first in the input, and follows only its dependencies. With two
  tasks of id \<open>a\<close>, the second listing \<open>b\<close>, and a task \<open>b\<close>, the graph on the ids is
  acyclic, yet the output is the first \<open>a\<close>, then \<open>b\<close>: \<open>b\<close> does not come before a task
  of id \<open>a\<close>, and the task that lists it is not in the output.
\<close>

theorem duplicate_ids_counterexample:
  "acyclic (set (dep_edges [tool ''a'' None, tool ''a'' (Some [''b'']), tool ''b'' None])) \<and>
   tool ''a'' (Some [''b'']) \<in> set [tool ''a'' None, tool ''a'' (Some [''b'']), tool ''b'' None] \<and>
   tool ''b'' None \<in> set [tool ''a'' None, tool ''a'' (Some [''b'']), tool ''b'' None] \<and>
   task_dependencies (tool ''a'' (Some [''b''])) = Some [task_id (tool ''b'' None)] \<and>
   topologicalSort [tool ''a'' None, tool ''a'' (Some [''b'']), tool ''b'' None]
     = [tool ''a'' None, tool ''b'' None] \<and>
   \<not> appears_before (topologicalSort [tool ''a'' None, tool ''a'' (Some [''b'']), tool ''b'' None])
        (tool ''b'' None) (tool ''a'' (Some [''b'']))"
proof -
  have e: "dep_edges [tool ''a'' None, tool ''a'' (Some [''b'']), tool ''b'' None] = [(''a'', ''b'')]"
    by code_simp
  have "acyclic ({} :: (string \<times> string) set)" by (simp add: acyclic_def)
  then have ac: "acyclic (set [(''a'', ''b'')])" by simp
  have m: "tool ''a'' (Some [''b'']) \<in> set [tool ''a'' None, tool ''a'' (Some [''b'']), tool ''b'' None]"
    "tool ''b'' None \<in> set [tool ''a'' None, tool ''a'' (Some [''b'']), tool ''b'' None]"
    by simp_all
  have d: "task_dependencies (tool ''a'' (Some [''b''])) = Some [task_id (tool ''b'' None)]"
    by (simp add: tool_def)
  have t: "topologicalSort [tool ''a'' None, tool ''a'' (Some [''b'']), tool ''b'' None]
     = [tool ''a'' None, tool ''b'' None]"
    by code_simp
  have n: "\<not> appears_before [tool ''a'' None, tool ''b'' None] (tool ''b'' None) (tool ''a'' (Some [''b'']))"
    by code_simp
  from e ac m d t n show ?thesis by simp
qed


lemma taskMap_present_only:
  "taskMap (map (present_only ts) tasks) d = map_option (present_only ts) (taskMap tasks d)"
proof -
  have "rev (map (\<lambda>t. (task_id t, t)) (map (present_only ts) tasks)) =
        map (\<lambda>(k, v). (k, present_only ts v)) (rev (map (\<lambda>t. (task_id t, t)) tasks))"
    by (simp add: rev_map present_only_def)
  then have "taskMap (map (present_only ts) tasks) =
        map_of (map (\<lambda>(k, v). (k, present_only ts v)) (rev (map (\<lambda>t. (task_id t, t)) tasks)))"
    unfolding taskMap_def by (rule arg_cong)
  also have "\<dots> = map_option (present_only ts) \<circ> taskMap tasks"
    unfolding taskMap_def by (rule map_of_map)
  finally show ?thesis by simp
qed

lemma visit_present_only:
  shows "visit (map (present_only tasks) tasks) (present_only tasks t)
           (fst st, map (present_only tasks) (snd st)) =
         (fst (visit tasks t st), map (present_only tasks) (snd (visit tasks t st)))"
  and "visit_deps (map (present_only tasks) tasks) (filter (\<lambda>d. d \<in> set (map task_id tasks)) ds)
           (fst st, map (present_only tasks) (snd st)) =
         (fst (visit_deps tasks ds st), map (present_only tasks) (snd (visit_deps tasks ds st)))"
proof (induction tasks t st and tasks ds st rule: visit_visit_deps.induct)
  case (1 tasks task visited result)
  show ?case
  proof (cases "task_id task \<in> visited")
    case True
    then show ?thesis by (simp add: present_only_def)
  next
    case False
    let ?ds = "case task_dependencies task of None \<Rightarrow> [] | Some ds \<Rightarrow> ds"
    have ds: "(case task_dependencies (present_only tasks task) of None \<Rightarrow> [] | Some ds \<Rightarrow> ds)
        = filter (\<lambda>d. d \<in> set (map task_id tasks)) ?ds"
      by (simp add: present_only_def split: option.splits)
    have id: "task_id (present_only tasks task) = task_id task" by (simp add: present_only_def)
    from 1[OF False] False show ?thesis
      by (simp add: ds id split: prod.splits)
  qed
next
  case (2 tasks st)
  show ?case by simp
next
  case (3 tasks depId rest st)
  show ?case
  proof (cases "taskMap tasks depId")
    case None
    from taskMap_None[OF None] have "depId \<notin> set (map task_id tasks)" by simp
    with 3(1)[OF None] None show ?thesis by simp
  next
    case (Some dep)
    from taskMap_Some[OF Some] have "depId \<in> set (map task_id tasks)" by auto
    moreover have "taskMap (map (present_only tasks) tasks) depId = Some (present_only tasks dep)"
      by (simp add: taskMap_present_only Some)
    ultimately show ?thesis
      using 3(2)[OF Some] 3(3)[OF Some] Some by simp
  qed
qed

lemma fold_visit_present_only:
  "fold (visit (map (present_only tasks) tasks)) (map (present_only tasks) ts)
      (fst st, map (present_only tasks) (snd st)) =
   (fst (fold (visit tasks) ts st), map (present_only tasks) (snd (fold (visit tasks) ts st)))"
proof (induction ts arbitrary: st)
  case Nil
  show ?case by simp
next
  case (Cons t ts)
  from Cons.IH[of "visit tasks t st"] show ?case
    by (simp add: visit_present_only(1) del: visit.simps)
qed

lemma topologicalSort_present_only:
  "topologicalSort (map (present_only tasks) tasks) = map (present_only tasks) (topologicalSort tasks)"
  using fold_visit_present_only[of tasks tasks "({}, [])"]
  by (simp add: topologicalSort_def)

text \<open>
  C1, as amended. For an input list of tasks with pairwise distinct ids whose dependency
  graph, restricted to the ids present in the input, is acyclic, and tasks \<open>A\<close> and \<open>B\<close> of
  the input where \<open>A\<close> lists the id of \<open>B\<close>, \<open>B\<close> appears before \<open>A\<close> in the result of
  \<open>topologicalSort\<close>. For every input, removing from each dependency list the ids that are
  not present changes nothing in the result: the same tasks come out in the same order.
\<close>

theorem topologicalSort_dependencies_first:
  "(distinct (map task_id tasks) \<and> acyclic (set (dep_edges tasks)) \<and>
    A \<in> set tasks \<and> B \<in> set tasks \<and>
    task_dependencies A = Some ds \<and> task_id B \<in> set ds \<longrightarrow>
      appears_before (topologicalSort tasks) B A) \<and>
   topologicalSort (map (present_only tasks) tasks) = map (present_only tasks) (topologicalSort tasks)"
  using topologicalSort_before[of tasks A B ds] topologicalSort_present_only[of tasks]
  by blast

theorem topologicalSort_dependencies_first_witness:
  "distinct (map task_id [tool ''b'' (Some [''a'', ''zzz'']), tool ''a'' None]) \<and>
   acyclic (set (dep_edges [tool ''b'' (Some [''a'', ''zzz'']), tool ''a'' None])) \<and>
   task_dependencies (tool ''b'' (Some [''a'', ''zzz''])) = Some [''a'', ''zzz''] \<and>
   task_id (tool ''a'' None) \<in> set [''a'', ''zzz''] \<and>
   appears_before (topologicalSort [tool ''b'' (Some [''a'', ''zzz'']), tool ''a'' None])
     (tool ''a'' None) (tool ''b'' (Some [''a'', ''zzz''])) \<and>
   topologicalSort [tool ''b'' (Some [''a'', ''zzz'']), tool ''a'' None]
     = [tool ''a'' None, tool ''b'' (Some [''a'', ''zzz''])] \<and>
   map (present_only [tool ''b'' (Some [''a'', ''zzz'']), tool ''a'' None])
       [tool ''b'' (Some [''a'', ''zzz'']), tool ''a'' None]
     = [tool ''b'' (Some [''a'']), tool ''a'' None]"
proof -
  let ?ts = "[tool ''b'' (Some [''a'', ''zzz'']), tool ''a'' None]"
  have di: "distinct (map task_id ?ts)" by (simp add: tool_def)
  have e: "dep_edges ?ts = [(''b'', ''a'')]" by code_simp
  have "acyclic ({} :: (string \<times> string) set)" by (simp add: acyclic_def)
  then have "acyclic (set [(''b'', ''a'')])" by simp
  with e have ac: "acyclic (set (dep_edges ?ts))" by simp
  have m: "tool ''b'' (Some [''a'', ''zzz'']) \<in> set ?ts" "tool ''a'' None \<in> set ?ts" by simp_all
  have d: "task_dependencies (tool ''b'' (Some [''a'', ''zzz''])) = Some [''a'', ''zzz'']"
    "task_id (tool ''a'' None) \<in> set [''a'', ''zzz'']" by (simp_all add: tool_def)
  have t: "topologicalSort ?ts = [tool ''a'' None, tool ''b'' (Some [''a'', ''zzz''])]" by code_simp
  have p: "map (present_only ?ts) ?ts = [tool ''b'' (Some [''a'']), tool ''a'' None]" by code_simp
  from topologicalSort_dependencies_first[of ?ts "tool ''b'' (Some [''a'', ''zzz''])" "tool ''a'' None"
      "[''a'', ''zzz'']"] di ac m d
  have "appears_before (topologicalSort ?ts) (tool ''a'' None) (tool ''b'' (Some [''a'', ''zzz'']))"
    by blast
  with di ac d t p show ?thesis by blast
qed

subsection \<open>The dependency gate and the installed set\<close>

lemma installTask_frame:
  "installedTasks (snd (installTask e opts task st)) = installedTasks st \<and>
   tr_task (fst (installTask e opts task st)) = task \<and>
   \<not> tr_skipped (fst (installTask e opts task st))"
  by (auto simp: installTask_def split: prod.splits sum.splits)

lemma executeTask_missing:
  assumes "missing_of task st \<noteq> []"
  shows "executeTask e opts task st =
    (\<lparr>tr_task = task, tr_success = False, tr_steps = [], tr_skipped = True,
      tr_skipReason = Some (''Missing dependencies: '' @ intercalate '', '' (missing_of task st))\<rparr>, st)"
  using assms unfolding executeTask_def missing_of_def Let_def by simp

lemma executeTask_not_missing:
  assumes "missing_of task st = []"
  shows "tr_success (fst (executeTask e opts task st)) \<or> \<not> tr_skipped (fst (executeTask e opts task st))"
proof -
  have "\<not> tr_skipped (fst (installTask e opts task s))" for s
    by (simp add: installTask_frame)
  with assms show ?thesis
    unfolding executeTask_def missing_of_def Let_def
    by (auto split: prod.splits)
qed

lemma executeTask_frame:
  "installedTasks (snd (executeTask e opts task st)) = installedTasks st \<and>
   tr_task (fst (executeTask e opts task st)) = task"
proof (cases "missing_of task st = []")
  case False
  then show ?thesis by (simp add: executeTask_missing)
next
  case True
  have "installedTasks (snd (installTask e opts task s)) = installedTasks s \<and>
        tr_task (fst (installTask e opts task s)) = task" for s
    by (simp add: installTask_frame)
  with True show ?thesis
    unfolding executeTask_def missing_of_def Let_def
    by (auto split: prod.splits)
qed

lemma missing_of_iff:
  "(missing_of task st \<noteq> []) =
   (\<exists>deps. task_dependencies task = Some deps \<and> (\<exists>d\<in>set deps. d \<notin> installedTasks st))"
  by (auto simp: missing_of_def filter_empty_conv split: option.splits)

lemma executeAll_acc:
  "executeAll e opts ts acc st =
     (acc @ fst (executeAll e opts ts [] st), snd (executeAll e opts ts [] st))"
proof (induction ts arbitrary: acc st)
  case Nil
  show ?case by simp
next
  case (Cons t ts)
  obtain r st' where ex: "executeTask e opts t st = (r, st')" by (cases "executeTask e opts t st")
  note a = Cons.IH[of "acc @ [r]"] and b = Cons.IH[of "[r]"]
  show ?case
    by (simp add: ex a[of st'] a[of "st'\<lparr>installedTasks := insert (task_id t) (installedTasks st')\<rparr>"]
        b[of st'] b[of "st'\<lparr>installedTasks := insert (task_id t) (installedTasks st')\<rparr>"])
qed

lemma executeAll_installed:
  "installedTasks (snd (executeAll e opts ts [] st)) =
     installedTasks st \<union> counted (fst (executeAll e opts ts [] st))"
proof (induction ts arbitrary: st)
  case Nil
  show ?case by (simp add: counted_def)
next
  case (Cons t ts)
  obtain r st' where ex: "executeTask e opts t st = (r, st')" by (cases "executeTask e opts t st")
  from executeTask_frame[of e opts t st] ex
  have fr: "installedTasks st' = installedTasks st" "tr_task r = t" by simp_all
  let ?s2 = "st'\<lparr>installedTasks := insert (task_id t) (installedTasks st')\<rparr>"
  note acc1 = executeAll_acc[of e opts ts "[r]" ?s2] and acc2 = executeAll_acc[of e opts ts "[r]" st']
  show ?case
  proof (cases "tr_success r \<or> tr_skipped r")
    case True
    with ex have "executeAll e opts (t # ts) [] st = executeAll e opts ts [r] ?s2" by auto
    with acc1 have eq: "executeAll e opts (t # ts) [] st =
        (r # fst (executeAll e opts ts [] ?s2), snd (executeAll e opts ts [] ?s2))" by simp
    have "installedTasks ?s2 = insert (task_id t) (installedTasks st)" using fr by simp
    with Cons.IH[of ?s2] have "installedTasks (snd (executeAll e opts ts [] ?s2)) =
        insert (task_id t) (installedTasks st) \<union> counted (fst (executeAll e opts ts [] ?s2))"
      by simp
    moreover have "counted (r # fst (executeAll e opts ts [] ?s2)) =
        insert (task_id t) (counted (fst (executeAll e opts ts [] ?s2)))"
      using True fr by (auto simp: counted_def)
    ultimately show ?thesis unfolding eq by auto
  next
    case False
    show ?thesis
    proof (cases "continueOnError opts")
      case True
      with False ex have "executeAll e opts (t # ts) [] st = executeAll e opts ts [r] st'" by auto
      with acc2 have eq: "executeAll e opts (t # ts) [] st =
          (r # fst (executeAll e opts ts [] st'), snd (executeAll e opts ts [] st'))" by simp
      have "counted (r # fst (executeAll e opts ts [] st')) =
          counted (fst (executeAll e opts ts [] st'))"
        using False by (auto simp: counted_def)
      with Cons.IH[of st'] fr show ?thesis unfolding eq by simp
    next
      case nc: False
      with False ex have eq: "executeAll e opts (t # ts) [] st = ([r], st')" by auto
      have "counted [r] = {}" using False by (auto simp: counted_def)
      with fr show ?thesis unfolding eq by simp
    qed
  qed
qed

text \<open>
  C3. The claim that the installed set is empty at the start of every \<open>execute\<close> fails:
  the set is a field initialised when the executor is created and \<open>execute\<close> never clears
  it. After one run that skips \<open>git\<close> as already satisfied, the state a second call on the
  same executor starts from holds \<open>git\<close>.
\<close>

theorem installedTasks_kept_counterexample:
  "installedTasks (snd (execute installed_machine (formula_of [tool ''git'' None])
        default_options (new_executor []))) = {''git''}"
  by code_simp


text \<open>
  C3, as amended. The installed set is empty when the executor is created. An \<open>execute\<close>
  call removes nothing from it: it ends with the ids the call started with together
  with the id of every task whose result is a success or skipped.
\<close>

theorem execute_keeps_installedTasks:
  "installedTasks (new_executor h) = {} \<and>
   installedTasks (snd (execute e formula opts st)) =
     installedTasks st \<union>
     set (map (\<lambda>r. task_id (tr_task r))
            (filter (\<lambda>r. tr_success r \<or> tr_skipped r) (ir_tasks (fst (execute e formula opts st)))))"
proof -
  have "installedTasks (snd (execute e formula opts st)) =
     installedTasks st \<union> counted (ir_tasks (fst (execute e formula opts st)))"
    using executeAll_installed[of e opts "topologicalSort (filterTasks formula opts)" st]
    by (auto simp: execute_def Let_def counted_def split: prod.splits)
  then show ?thesis by (simp add: counted_def new_executor_def)
qed


theorem execute_keeps_installedTasks_witness:
  "''git'' \<in> installedTasks (snd (execute installed_machine (formula_of [tool ''curl'' None])
      default_options
      (snd (execute installed_machine (formula_of [tool ''git'' None]) default_options
         (new_executor []))))) \<and>
   installedTasks (new_executor []) = {}"
proof -
  have "installedTasks (snd (execute installed_machine (formula_of [tool ''git'' None])
      default_options (new_executor []))) = {''git''}"
    by code_simp
  with execute_keeps_installedTasks[of "[]" installed_machine "formula_of [tool ''curl'' None]"
      default_options "snd (execute installed_machine (formula_of [tool ''git'' None])
        default_options (new_executor []))"]
  show ?thesis by simp
qed

text \<open>
  C4. The claim that a dependency id outside the resolved set never causes a skip fails:
  \<open>executeTask\<close> compares the listed dependencies with the installed set only. A formula
  whose single task lists the unknown id \<open>zzz\<close> has that task skipped for missing
  dependencies.
\<close>

theorem unknown_dependency_counterexample:
  "''zzz'' \<notin> set (map task_id (f_tasks (formula_of [tool ''git'' (Some [''zzz''])]))) \<and>
   map (\<lambda>r. (tr_success r, tr_skipped r, tr_skipReason r))
     (ir_tasks (fst (execute installed_machine (formula_of [tool ''git'' (Some [''zzz''])])
        default_options (new_executor []))))
     = [(False, True, Some ''Missing dependencies: zzz'')]"
  by code_simp

text \<open>
  C4, as amended. \<open>executeTask\<close> returns a result that is skipped and not a success exactly
  when some listed dependency id is not in the installed set, whether or not that id
  belongs to the resolved set; the skip reason then lists the missing ids, no step is run
  and the state is unchanged.
\<close>

theorem executeTask_missing_dependencies:
  "(\<not> tr_success (fst (executeTask e opts task st)) \<and> tr_skipped (fst (executeTask e opts task st))) =
     (\<exists>deps. task_dependencies task = Some deps \<and> (\<exists>d\<in>set deps. d \<notin> installedTasks st)) \<and>
   (task_dependencies task = Some deps \<and> (\<exists>d\<in>set deps. d \<notin> installedTasks st) \<longrightarrow>
      tr_skipReason (fst (executeTask e opts task st)) =
        Some (''Missing dependencies: '' @
              intercalate '', '' (filter (\<lambda>dep. dep \<notin> installedTasks st) deps)) \<and>
      tr_steps (fst (executeTask e opts task st)) = [] \<and>
      snd (executeTask e opts task st) = st)"
proof (intro conjI impI)
  show "(\<not> tr_success (fst (executeTask e opts task st)) \<and> tr_skipped (fst (executeTask e opts task st))) =
     (\<exists>deps. task_dependencies task = Some deps \<and> (\<exists>d\<in>set deps. d \<notin> installedTasks st))"
  proof (cases "missing_of task st = []")
    case True
    with executeTask_not_missing[OF True, of e opts] missing_of_iff[of task st]
    show ?thesis by auto
  next
    case False
    with executeTask_missing[OF False, of e opts] missing_of_iff[of task st]
    show ?thesis by auto
  qed
next
  assume a: "task_dependencies task = Some deps \<and> (\<exists>d\<in>set deps. d \<notin> installedTasks st)"
  then have m: "missing_of task st \<noteq> []" using missing_of_iff[of task st] by auto
  from a have eq: "missing_of task st = filter (\<lambda>dep. dep \<notin> installedTasks st) deps"
    by (simp add: missing_of_def)
  from executeTask_missing[OF m, of e opts] eq
  show "tr_skipReason (fst (executeTask e opts task st)) =
        Some (''Missing dependencies: '' @
              intercalate '', '' (filter (\<lambda>dep. dep \<notin> installedTasks st) deps))"
    and "tr_steps (fst (executeTask e opts task st)) = []"
    and "snd (executeTask e opts task st) = st"
    by simp_all
qed


theorem executeTask_missing_dependencies_witness:
  "task_dependencies (tool ''gh'' (Some [''git'', ''zzz''])) = Some [''git'', ''zzz''] \<and>
   (\<exists>d\<in>set [''git'', ''zzz'']. d \<notin> installedTasks \<lparr>installedTasks = {''git''}, history = []\<rparr>) \<and>
   tr_skipReason (fst (executeTask installed_machine default_options
      (tool ''gh'' (Some [''git'', ''zzz''])) \<lparr>installedTasks = {''git''}, history = []\<rparr>))
     = Some ''Missing dependencies: zzz''"
proof -
  have d: "task_dependencies (tool ''gh'' (Some [''git'', ''zzz''])) = Some [''git'', ''zzz'']"
    by (simp add: tool_def)
  have m: "\<exists>d\<in>set [''git'', ''zzz'']. d \<notin> installedTasks \<lparr>installedTasks = {''git''}, history = []\<rparr>"
    by simp
  have f: "''Missing dependencies: '' @ intercalate '', ''
       (filter (\<lambda>dep. dep \<notin> installedTasks \<lparr>installedTasks = {''git''}, history = []\<rparr>)
          [''git'', ''zzz'']) = ''Missing dependencies: zzz''"
    by (simp add: intercalate_def)
  from executeTask_missing_dependencies[of installed_machine default_options
      "tool ''gh'' (Some [''git'', ''zzz''])" "\<lparr>installedTasks = {''git''}, history = []\<rparr>"
      "[''git'', ''zzz'']"] d m f
  show ?thesis by simp
qed

lemma executeAll_append:
  "list_all (\<lambda>r. tr_success r \<or> tr_skipped r) (fst (executeAll e opts pre [] st)) \<or>
     continueOnError opts \<Longrightarrow>
   executeAll e opts (pre @ ss) [] st =
     (fst (executeAll e opts pre [] st) @
        fst (executeAll e opts ss [] (snd (executeAll e opts pre [] st))),
      snd (executeAll e opts ss [] (snd (executeAll e opts pre [] st))))"
proof (induction pre arbitrary: st)
  case Nil
  show ?case by simp
next
  case (Cons t ts)
  obtain r st' where ex: "executeTask e opts t st = (r, st')" by (cases "executeTask e opts t st")
  let ?s2 = "st'\<lparr>installedTasks := insert (task_id t) (installedTasks st')\<rparr>"
  show ?case
  proof (cases "tr_success r \<or> tr_skipped r")
    case True
    with ex have a: "executeAll e opts (t # ts) [] st = executeAll e opts ts [r] ?s2"
      and b: "executeAll e opts ((t # ts) @ ss) [] st = executeAll e opts (ts @ ss) [r] ?s2"
      by auto
    note a' = a[unfolded executeAll_acc[of e opts ts "[r]" ?s2]]
    note b' = b[unfolded executeAll_acc[of e opts "ts @ ss" "[r]" ?s2]]
    from Cons.prems a' have "list_all (\<lambda>r. tr_success r \<or> tr_skipped r)
        (fst (executeAll e opts ts [] ?s2)) \<or> continueOnError opts" by auto
    from Cons.IH[OF this] show ?thesis unfolding a' b' by simp
  next
    case False
    with Cons.prems ex have c: "continueOnError opts"
      by (cases "continueOnError opts") auto
    with False ex have a: "executeAll e opts (t # ts) [] st = executeAll e opts ts [r] st'"
      and b: "executeAll e opts ((t # ts) @ ss) [] st = executeAll e opts (ts @ ss) [r] st'"
      by auto
    note a' = a[unfolded executeAll_acc[of e opts ts "[r]" st']]
    note b' = b[unfolded executeAll_acc[of e opts "ts @ ss" "[r]" st']]
    from c have "list_all (\<lambda>r. tr_success r \<or> tr_skipped r)
        (fst (executeAll e opts ts [] st')) \<or> continueOnError opts" by simp
    from Cons.IH[OF this] show ?thesis unfolding a' b' by simp
  qed
qed

lemma topologicalSort_Nil: "topologicalSort [] = []"
  by (simp add: topologicalSort_def)

text \<open>
  C10. Take a run of \<open>execute\<close> whose sorted tasks are \<open>pre\<close>, then \<open>task\<close>, then \<open>rest\<close>,
  in which the loop reaches \<open>task\<close> (no failure has stopped it) with a listed dependency of
  \<open>task\<close> outside the installed set. Then the result for \<open>task\<close> has success false and
  skipped true, with no step run and the state unchanged; the run's results are those of
  \<open>pre\<close>, this result, and those of the loop continued over \<open>rest\<close> with the task's id added
  to the installed set, whatever \<open>continueOnError\<close> is; the id is in the installed set when
  the run ends; the overall success of the run is decided by the other results alone; and
  a later task whose only dependency is the skipped task is not skipped for a missing
  dependency.
\<close>

theorem missing_dependency_skip_in_run:
  assumes sorted: "topologicalSort (filterTasks formula opts) = pre @ task # rest"
    and before: "executeAll e opts pre [] st = (rs, st1)"
    and reached: "list_all (\<lambda>r. tr_success r \<or> tr_skipped r) rs \<or> continueOnError opts"
    and deps: "task_dependencies task = Some deps" "d \<in> set deps" "d \<notin> installedTasks st1"
    and skip: "skip = fst (executeTask e opts task st1)"
    and later: "later = executeAll e opts rest []
                  (st1\<lparr>installedTasks := insert (task_id task) (installedTasks st1)\<rparr>)"
    and run: "run = execute e formula opts st"
  shows "\<not> tr_success skip \<and> tr_skipped skip \<and> tr_steps skip = [] \<and>
         snd (executeTask e opts task st1) = st1 \<and>
         ir_tasks (fst run) = rs @ skip # fst later \<and>
         snd run = snd later \<and>
         task_id task \<in> installedTasks (snd run) \<and>
         ir_success (fst run) =
           (list_all (\<lambda>r. tr_success r \<or> tr_skipped r) rs \<and>
            list_all (\<lambda>r. tr_success r \<or> tr_skipped r) (fst later)) \<and>
         (task_dependencies next_task = Some [task_id task] \<longrightarrow>
            (tr_success (fst (executeTask e opts next_task
                (st1\<lparr>installedTasks := insert (task_id task) (installedTasks st1)\<rparr>))) \<or>
             \<not> tr_skipped (fst (executeTask e opts next_task
                (st1\<lparr>installedTasks := insert (task_id task) (installedTasks st1)\<rparr>)))))"
proof -
  let ?st2 = "st1\<lparr>installedTasks := insert (task_id task) (installedTasks st1)\<rparr>"
  from deps have m: "missing_of task st1 \<noteq> []" using missing_of_iff[of task st1] by auto
  note ex = executeTask_missing[OF m, of e opts]
  from ex skip have sk: "\<not> tr_success skip" "tr_skipped skip" "tr_steps skip = []"
    "executeTask e opts task st1 = (skip, st1)" by simp_all
  from sk have "executeAll e opts (task # rest) [] st1 = executeAll e opts rest [skip] ?st2"
    by simp
  with later have tail: "executeAll e opts (task # rest) [] st1 = (skip # fst later, snd later)"
    by (simp add: executeAll_acc[of e opts rest "[skip]" ?st2])
  from before reached
  have "list_all (\<lambda>r. tr_success r \<or> tr_skipped r) (fst (executeAll e opts pre [] st)) \<or>
     continueOnError opts" by simp
  from executeAll_append[OF this, of "task # rest"] before tail
  have all: "executeAll e opts (pre @ task # rest) [] st = (rs @ skip # fst later, snd later)"
    by simp
  from sorted have ne: "filterTasks formula opts \<noteq> []"
    by (auto simp: topologicalSort_Nil)
  from ne sorted all run
  have r1: "ir_tasks (fst run) = rs @ skip # fst later" and r2: "snd run = snd later"
    and r3: "ir_success (fst run) =
       list_all (\<lambda>r. tr_success r \<or> tr_skipped r) (rs @ skip # fst later)"
    by (simp_all add: execute_def Let_def)
  from r3 sk(2) have r4: "ir_success (fst run) =
           (list_all (\<lambda>r. tr_success r \<or> tr_skipped r) rs \<and>
            list_all (\<lambda>r. tr_success r \<or> tr_skipped r) (fst later))" by simp
  from executeAll_installed[of e opts rest ?st2] later r2
  have r5: "task_id task \<in> installedTasks (snd run)" by simp
  have nx: "tr_success (fst (executeTask e opts next_task ?st2)) \<or>
             \<not> tr_skipped (fst (executeTask e opts next_task ?st2))"
    if "task_dependencies next_task = Some [task_id task]"
  proof -
    from that have "missing_of next_task ?st2 = []" by (simp add: missing_of_def)
    from executeTask_not_missing[OF this] show ?thesis .
  qed
  from sk r1 r2 r4 r5 nx show ?thesis by simp
qed


theorem missing_dependency_skip_in_run_witness:
  "topologicalSort (filterTasks
      (formula_of [tool ''git'' None, tool ''gh'' (Some [''zzz'']), tool ''lazygit'' (Some [''gh''])])
      default_options)
     = [tool ''git'' None] @ tool ''gh'' (Some [''zzz'']) # [tool ''lazygit'' (Some [''gh''])] \<and>
   ''zzz'' \<notin> installedTasks (snd (executeAll installed_machine default_options [tool ''git'' None] []
      (new_executor []))) \<and>
   map (\<lambda>r. (tr_success r, tr_skipped r))
     (ir_tasks (fst (execute installed_machine
        (formula_of [tool ''git'' None, tool ''gh'' (Some [''zzz'']), tool ''lazygit'' (Some [''gh''])])
        default_options (new_executor []))))
     = [(True, True), (False, True), (True, False)] \<and>
   ir_success (fst (execute installed_machine
        (formula_of [tool ''git'' None, tool ''gh'' (Some [''zzz'']), tool ''lazygit'' (Some [''gh''])])
        default_options (new_executor []))) \<and>
   ''gh'' \<in> installedTasks (snd (execute installed_machine
        (formula_of [tool ''git'' None, tool ''gh'' (Some [''zzz'']), tool ''lazygit'' (Some [''gh''])])
        default_options (new_executor [])))"
proof -
  let ?F = "formula_of [tool ''git'' None, tool ''gh'' (Some [''zzz'']), tool ''lazygit'' (Some [''gh''])]"
  let ?gh = "tool ''gh'' (Some [''zzz''])"
  let ?pre = "executeAll installed_machine default_options [tool ''git'' None] [] (new_executor [])"
  let ?st2 = "(snd ?pre)\<lparr>installedTasks := insert (task_id ?gh) (installedTasks (snd ?pre))\<rparr>"
  let ?later = "executeAll installed_machine default_options [tool ''lazygit'' (Some [''gh''])] [] ?st2"
  have sorted: "topologicalSort (filterTasks ?F default_options)
     = [tool ''git'' None] @ ?gh # [tool ''lazygit'' (Some [''gh''])]" by code_simp
  have before: "?pre = (fst ?pre, snd ?pre)" by simp
  have rs: "map (\<lambda>r. (tr_success r, tr_skipped r)) (fst ?pre) = [(True, True)]" by code_simp
  have ok1: "list_all (\<lambda>r. tr_success r \<or> tr_skipped r) (fst ?pre)" by code_simp
  have deps: "task_dependencies ?gh = Some [''zzz'']" "''zzz'' \<in> set [''zzz'']"
    by (simp_all add: tool_def)
  have nz: "''zzz'' \<notin> installedTasks (snd ?pre)" by code_simp
  have lt: "map (\<lambda>r. (tr_success r, tr_skipped r)) (fst ?later) = [(True, False)]" by code_simp
  have ok2: "list_all (\<lambda>r. tr_success r \<or> tr_skipped r) (fst ?later)" by code_simp
  have id: "task_id ?gh = ''gh''" by (simp add: tool_def)
  from missing_dependency_skip_in_run[OF sorted before disjI1[OF ok1] deps nz refl refl refl]
  have sk: "\<not> tr_success (fst (executeTask installed_machine default_options ?gh (snd ?pre)))"
      "tr_skipped (fst (executeTask installed_machine default_options ?gh (snd ?pre)))"
    and tasks: "ir_tasks (fst (execute installed_machine ?F default_options (new_executor [])))
        = fst ?pre @ fst (executeTask installed_machine default_options ?gh (snd ?pre)) # fst ?later"
    and inst: "task_id ?gh \<in> installedTasks (snd (execute installed_machine ?F default_options
        (new_executor [])))"
    and succ: "ir_success (fst (execute installed_machine ?F default_options (new_executor []))) =
        (list_all (\<lambda>r. tr_success r \<or> tr_skipped r) (fst ?pre) \<and>
         list_all (\<lambda>r. tr_success r \<or> tr_skipped r) (fst ?later))"
    by blast+
  from tasks rs lt sk
  have m: "map (\<lambda>r. (tr_success r, tr_skipped r))
     (ir_tasks (fst (execute installed_machine ?F default_options (new_executor []))))
     = [(True, True), (False, True), (True, False)]" by simp
  from succ ok1 ok2
  have s: "ir_success (fst (execute installed_machine ?F default_options (new_executor [])))"
    by simp
  from sorted nz m s inst id show ?thesis by simp
qed

subsection \<open>Failing steps\<close>

lemma stepExecute_failed_command:
  assumes "shouldRunOnPlatform e step" and "buildCommand step = Inr (cmd, as)"
    and "respond e h (Spawn cmd as (step_env step) (step_cwd step)) = oc"
    and "(\<exists>code out err. oc = Exited code out err \<and> code \<noteq> Some 0) \<or>
         (\<exists>m. oc = SpawnError m \<and> m \<noteq> [])"
  shows "\<exists>msg. msg \<noteq> [] \<and>
           stepExecute e h step =
             (\<lparr>sr_step = step,
               sr_success = (case step_optional step of None \<Rightarrow> False | Some b \<Rightarrow> b),
               sr_output = None, sr_error = Some msg\<rparr>,
              h @ [Spawn cmd as (step_env step) (step_cwd step)])"
  using assms
  by (auto simp: stepExecute_def runCommand_def step_failure_def Let_def)

lemma executeSteps_append:
  "executeSteps e opts (pre @ ss) acc h =
     (case executeSteps e opts pre acc h of
        (Inl rs, h') \<Rightarrow> (Inl rs, h')
      | (Inr rs, h') \<Rightarrow> executeSteps e opts ss rs h')"
  by (induction pre arbitrary: acc h) (auto split: prod.splits)

text \<open>
  C8. Take a step that runs on the current platform, outside a dry run, whose command
  exits with a code other than 0 or cannot be spawned (the runtime then reports an error
  with a message). If the step is optional, its result is a success with a non-empty error
  text and the loop goes on with the remaining steps. If it is not, its result is a
  failure, the loop ends with the results so far, the task's result has success false, and
  the last command issued is the failing one: no later step is executed.
\<close>

theorem failed_step_policy:
  assumes "shouldRunOnPlatform e step" and "\<not> dryRun opts"
    and "buildCommand step = Inr (cmd, as)"
    and "respond e h (Spawn cmd as (step_env step) (step_cwd step)) = oc"
    and "(\<exists>code out err. oc = Exited code out err \<and> code \<noteq> Some 0) \<or>
         (\<exists>m. oc = SpawnError m \<and> m \<noteq> [])"
  shows "(step_optional step = Some True \<longrightarrow>
            sr_success (fst (stepExecute e h step)) \<and>
            (\<exists>msg. sr_error (fst (stepExecute e h step)) = Some msg \<and> msg \<noteq> []) \<and>
            executeSteps e opts (step # rest) acc h =
              executeSteps e opts rest (acc @ [fst (stepExecute e h step)])
                (h @ [Spawn cmd as (step_env step) (step_cwd step)])) \<and>
         (step_optional step \<noteq> Some True \<longrightarrow>
            \<not> sr_success (fst (stepExecute e h step)) \<and>
            executeSteps e opts (step # rest) acc h =
              (Inl (acc @ [fst (stepExecute e h step)]),
               h @ [Spawn cmd as (step_env step) (step_cwd step)]) \<and>
            (task_steps task = pre @ step # rest \<and>
             executeSteps e opts pre [] (history st) = (Inr rs, h) \<longrightarrow>
               installTask e opts task st =
                 (\<lparr>tr_task = task, tr_success = False,
                   tr_steps = rs @ [fst (stepExecute e h step)],
                   tr_skipped = False, tr_skipReason = None\<rparr>,
                  st\<lparr>history := h @ [Spawn cmd as (step_env step) (step_cwd step)]\<rparr>)))"
proof -
  from stepExecute_failed_command[OF assms(1,3,4,5)]
  obtain msg where msg: "msg \<noteq> []" and
    se: "stepExecute e h step =
             (\<lparr>sr_step = step,
               sr_success = (case step_optional step of None \<Rightarrow> False | Some b \<Rightarrow> b),
               sr_output = None, sr_error = Some msg\<rparr>,
              h @ [Spawn cmd as (step_env step) (step_cwd step)])"
    by blast
  have opt: "step_optional step = Some True \<longrightarrow>
            sr_success (fst (stepExecute e h step)) \<and>
            (\<exists>msg. sr_error (fst (stepExecute e h step)) = Some msg \<and> msg \<noteq> []) \<and>
            executeSteps e opts (step # rest) acc h =
              executeSteps e opts rest (acc @ [fst (stepExecute e h step)])
                (h @ [Spawn cmd as (step_env step) (step_cwd step)])"
    using assms(2) msg by (simp add: se)
  have nsucc: "\<not> sr_success (fst (stepExecute e h step))" if "step_optional step \<noteq> Some True"
    using that by (cases "step_optional step") (auto simp: se)
  have stop: "executeSteps e opts (step # rest) acc h =
              (Inl (acc @ [fst (stepExecute e h step)]),
               h @ [Spawn cmd as (step_env step) (step_cwd step)])"
    if "step_optional step \<noteq> Some True" for acc
    using that nsucc[OF that] assms(2) by (simp add: se)
  have task: "installTask e opts task st =
                 (\<lparr>tr_task = task, tr_success = False,
                   tr_steps = rs @ [fst (stepExecute e h step)],
                   tr_skipped = False, tr_skipReason = None\<rparr>,
                  st\<lparr>history := h @ [Spawn cmd as (step_env step) (step_cwd step)]\<rparr>)"
    if "step_optional step \<noteq> Some True" and "task_steps task = pre @ step # rest"
      and "executeSteps e opts pre [] (history st) = (Inr rs, h)"
    using that(2,3) stop[OF that(1), of rs]
    by (simp add: installTask_def executeSteps_append)
  from opt nsucc stop task show ?thesis by blast
qed


theorem failed_step_policy_witness:
  "sr_success (fst (stepExecute failing_machine [] (brew_step ''jq'' (Some True)))) \<and>
   sr_error (fst (stepExecute failing_machine [] (brew_step ''jq'' (Some True))))
     = Some ''Command failed with exit code 1'' \<and>
   map sr_success (tr_steps (fst (installTask failing_machine default_options three_steps
      (new_executor [])))) = [True, False] \<and>
   \<not> tr_success (fst (installTask failing_machine default_options three_steps (new_executor []))) \<and>
   history (snd (installTask failing_machine default_options three_steps (new_executor [])))
     = [Spawn ''brew'' [''install'', ''jq''] None None, Spawn ''brew'' [''install'', ''gh''] None None]"
proof -
  let ?jq = "brew_step ''jq'' (Some True)" and ?gh = "brew_step ''gh'' None"
  let ?h1 = "[Spawn ''brew'' [''install'', ''jq''] None None]"
  have p: "shouldRunOnPlatform failing_machine ?jq" "shouldRunOnPlatform failing_machine ?gh"
    by code_simp+
  have d: "\<not> dryRun default_options" by (simp add: default_options_def)
  have b1: "buildCommand ?jq = Inr (''brew'', [''install'', ''jq''])" by code_simp
  have b2: "buildCommand ?gh = Inr (''brew'', [''install'', ''gh''])" by code_simp
  have r1: "respond failing_machine [] (Spawn ''brew'' [''install'', ''jq''] (step_env ?jq) (step_cwd ?jq))
      = Exited (Some 1) [] []"
    by (simp add: failing_machine_def machine_def)
  have r2: "respond failing_machine ?h1 (Spawn ''brew'' [''install'', ''gh''] (step_env ?gh) (step_cwd ?gh))
      = Exited (Some 1) [] []"
    by (simp add: failing_machine_def machine_def)
  have f: "(\<exists>code out err. Exited (Some 1) [] [] = Exited code out err \<and> code \<noteq> Some 0) \<or>
         (\<exists>m. Exited (Some 1) [] [] = SpawnError m \<and> m \<noteq> [])"
    by simp
  have o1: "step_optional ?jq = Some True" and o2: "step_optional ?gh \<noteq> Some True"
    by (simp_all add: brew_step_def)
  have e1: "sr_error (fst (stepExecute failing_machine [] ?jq)) = Some ''Command failed with exit code 1''"
    by code_simp
  have pre: "task_steps three_steps = [?jq] @ ?gh # [brew_step ''fzf'' None] \<and>
     executeSteps failing_machine default_options [?jq] [] (history (new_executor []))
       = (Inr [fst (stepExecute failing_machine [] ?jq)], ?h1)"
    by code_simp
  have env: "step_env ?gh = None" "step_cwd ?gh = None" by (simp_all add: brew_step_def)
  from failed_step_policy[OF p(1) d b1 r1 f] o1
  have w1: "sr_success (fst (stepExecute failing_machine [] ?jq))" by blast
  from failed_step_policy[OF p(2) d b2 r2 f, of "[brew_step ''fzf'' None]" _ three_steps "[?jq]"
      "new_executor []" "[fst (stepExecute failing_machine [] ?jq)]"] o2 pre
  have it: "installTask failing_machine default_options three_steps (new_executor []) =
       (\<lparr>tr_task = three_steps, tr_success = False,
         tr_steps = [fst (stepExecute failing_machine [] ?jq)] @ [fst (stepExecute failing_machine ?h1 ?gh)],
         tr_skipped = False, tr_skipReason = None\<rparr>,
        (new_executor [])\<lparr>history := ?h1 @ [Spawn ''brew'' [''install'', ''gh''] (step_env ?gh) (step_cwd ?gh)]\<rparr>)"
    and ns: "\<not> sr_success (fst (stepExecute failing_machine ?h1 ?gh))"
    by blast+
  from w1 e1 it ns env show ?thesis by simp
qed

subsection \<open>Re-running on an installed machine\<close>

lemma satisfies_2_0_0: "satisfiesVersion ''2.0.0'' ''^2.0.0''"
  by code_simp

lemma executeTask_already_satisfied:
  assumes flags: "\<not> forceInstall opts" "\<not> skipVersionCheck opts" "\<not> dryRun opts"
    and ver: "task_version t = Some ''^2.0.0''" and rep: "reports_version e t ''2.0.0''"
    and deps: "missing_of t st = []"
  shows "skipped_ok (fst (executeTask e opts t st)) \<and>
         tr_task (fst (executeTask e opts t st)) = t \<and>
         installedTasks (snd (executeTask e opts t st)) = installedTasks st \<and>
         filter is_spawn (history (snd (executeTask e opts t st))) = filter is_spawn (history st)"
proof -
  from rep obtain inst cmd where inst: "taskRegistry e (task_id t) = Some inst"
    "bt_versionCommand inst = Some cmd" "cmd \<noteq> []"
    and r: "\<forall>h. \<exists>out err. respond e h (ExecSync cmd) = Exited (Some 0) out err \<and>
                parseVersion e inst (trim out) = Returns (Some ''2.0.0'')"
    unfolding reports_version_def by blast
  from r obtain out err where o: "respond e (history st) (ExecSync cmd) = Exited (Some 0) out err"
    "parseVersion e inst (trim out) = Returns (Some ''2.0.0'')" by blast
  have cv: "checkVersion e (history st) inst ''^2.0.0'' =
      (\<lparr>installed = True, currentVersion = Some ''2.0.0'', needsUpdate = False,
        message = bt_name inst @ '' '' @ ''2.0.0'' @ '' satisfies '' @ ''^2.0.0''\<rparr>,
       history st @ [ExecSync cmd])"
    using inst o satisfies_2_0_0 by (simp add: checkVersion_def Let_def)
  have ctv: "checkTaskVersion e (history st) t =
      (\<lparr>installed = True, currentVersion = Some ''2.0.0'', needsUpdate = False,
        message = bt_name inst @ '' '' @ ''2.0.0'' @ '' satisfies '' @ ''^2.0.0''\<rparr>,
       history st @ [ExecSync cmd])"
    using inst(1) ver cv by (simp add: checkTaskVersion_def)
  have "executeTask e opts t st =
      (\<lparr>tr_task = t, tr_success = True, tr_steps = [], tr_skipped = True,
        tr_skipReason = Some (bt_name inst @ '' '' @ ''2.0.0'' @ '' satisfies '' @ ''^2.0.0'')\<rparr>,
       st\<lparr>history := history st @ [ExecSync cmd]\<rparr>)"
    using deps flags ctv unfolding executeTask_def missing_of_def Let_def by simp
  then show ?thesis by (simp add: skipped_ok_def)
qed

lemma executeAll_already_satisfied:
  assumes flags: "\<not> forceInstall opts" "\<not> skipVersionCheck opts" "\<not> dryRun opts"
  shows "(\<forall>t\<in>set ts. task_version t = Some ''^2.0.0'' \<and> reports_version e t ''2.0.0'' \<and>
            set (deps_of t) \<subseteq> ids) \<Longrightarrow>
     ordered_from ids seen ts \<Longrightarrow> seen \<subseteq> installedTasks st \<Longrightarrow>
     list_all skipped_ok (fst (executeAll e opts ts [] st)) \<and>
     map tr_task (fst (executeAll e opts ts [] st)) = ts \<and>
     filter is_spawn (history (snd (executeAll e opts ts [] st))) = filter is_spawn (history st)"
proof (induction ts arbitrary: st seen)
  case Nil
  show ?case by simp
next
  case (Cons t ts)
  from Cons.prems(1) have t: "task_version t = Some ''^2.0.0''" "reports_version e t ''2.0.0''"
    "set (deps_of t) \<subseteq> ids" by auto
  from Cons.prems(2) have dseen: "\<forall>d\<in>set (deps_of t). d \<in> ids \<longrightarrow> d \<in> seen"
    and ord: "ordered_from ids (insert (task_id t) seen) ts"
    by (simp_all add: list_all_iff)
  from dseen t(3) Cons.prems(3) have "\<forall>d\<in>set (deps_of t). d \<in> installedTasks st" by blast
  then have m: "missing_of t st = []"
    by (auto simp: missing_of_def deps_of_def filter_empty_conv split: option.splits)
  obtain r st' where ex: "executeTask e opts t st = (r, st')" by (cases "executeTask e opts t st")
  from executeTask_already_satisfied[OF flags t(1,2) m] ex
  have r: "skipped_ok r" "tr_task r = t" and st': "installedTasks st' = installedTasks st"
    "filter is_spawn (history st') = filter is_spawn (history st)" by simp_all
  let ?s2 = "st'\<lparr>installedTasks := insert (task_id t) (installedTasks st')\<rparr>"
  from r(1) ex have step: "executeAll e opts (t # ts) [] st = executeAll e opts ts [r] ?s2"
    by (simp add: skipped_ok_def)
  note step' = step[unfolded executeAll_acc[of e opts ts "[r]" ?s2]]
  have sub: "insert (task_id t) seen \<subseteq> installedTasks ?s2"
    using Cons.prems(3) st'(1) by auto
  from Cons.prems(1) have rest: "\<forall>t\<in>set ts. task_version t = Some ''^2.0.0'' \<and>
      reports_version e t ''2.0.0'' \<and> set (deps_of t) \<subseteq> ids" by simp
  from Cons.IH[OF rest ord sub] r st'(2) show ?case unfolding step' by simp
qed


lemma execute_already_satisfied:
  assumes flags: "\<not> forceInstall opts" "\<not> skipVersionCheck opts" "\<not> dryRun opts"
    and tasks: "\<forall>t\<in>set (filterTasks formula opts).
        task_version t = Some ''^2.0.0'' \<and> reports_version e t ''2.0.0'' \<and>
        set (deps_of t) \<subseteq> set (map task_id (filterTasks formula opts))"
    and acyc: "acyclic (set (dep_edges (filterTasks formula opts)))"
  shows "list_all skipped_ok (ir_tasks (fst (execute e formula opts st))) \<and>
         map tr_task (ir_tasks (fst (execute e formula opts st)))
           = topologicalSort (filterTasks formula opts) \<and>
         ir_success (fst (execute e formula opts st)) \<and>
         filter is_spawn (history (snd (execute e formula opts st))) = filter is_spawn (history st)"
proof (cases "filterTasks formula opts = []")
  case True
  then show ?thesis by (simp add: execute_def topologicalSort_Nil)
next
  case False
  let ?ts = "filterTasks formula opts"
  note ord = topologicalSort_ordered[OF acyc]
  from tasks ord(2) have all: "\<forall>t\<in>set (topologicalSort ?ts).
      task_version t = Some ''^2.0.0'' \<and> reports_version e t ''2.0.0'' \<and>
      set (deps_of t) \<subseteq> task_id ` set ?ts" by auto
  from executeAll_already_satisfied[OF flags all ord(1), of st]
  have res: "list_all skipped_ok (fst (executeAll e opts (topologicalSort ?ts) [] st))"
    "map tr_task (fst (executeAll e opts (topologicalSort ?ts) [] st)) = topologicalSort ?ts"
    "filter is_spawn (history (snd (executeAll e opts (topologicalSort ?ts) [] st)))
       = filter is_spawn (history st)" by simp_all
  from res(1) have "list_all (\<lambda>r. tr_success r \<or> tr_skipped r)
      (fst (executeAll e opts (topologicalSort ?ts) [] st))"
    by (auto simp: list_all_iff skipped_ok_def)
  with False res show ?thesis
    by (auto simp: execute_def Let_def split: prod.splits)
qed

text \<open>
  C2. The claim fails for a task with a listed dependency that is not installed in the
  run: the dependency gate comes before the version gate. On a machine where the version
  check reports 2.0.0, a formula whose single task has the constraint \<open>^2.0.0\<close> and lists
  the unknown id \<open>zzz\<close> gets, in both runs, a result that is skipped with success false.
\<close>

theorem version_gate_counterexample:
  "task_version (tool ''gh'' (Some [''zzz''])) = Some ''^2.0.0'' \<and>
   fst (checkTaskVersion machine_2_0_0 [] (tool ''gh'' (Some [''zzz''])))
     = \<lparr>installed = True, currentVersion = Some ''2.0.0'', needsUpdate = False,
        message = ''gh 2.0.0 satisfies ^2.0.0''\<rparr> \<and>
   map (\<lambda>r. (tr_success r, tr_skipped r))
     (ir_tasks (fst (execute machine_2_0_0 (formula_of [tool ''gh'' (Some [''zzz''])])
        default_options (new_executor [])))) = [(False, True)] \<and>
   map (\<lambda>r. (tr_success r, tr_skipped r))
     (ir_tasks (fst (execute machine_2_0_0 (formula_of [tool ''gh'' (Some [''zzz''])])
        default_options
        (snd (execute machine_2_0_0 (formula_of [tool ''gh'' (Some [''zzz''])])
           default_options (new_executor [])))))) = [(False, True)]"
  by code_simp


text \<open>
  C2, as amended. Without \<open>forceInstall\<close>, \<open>skipVersionCheck\<close> and \<open>dryRun\<close>, take the tasks
  that a run selects: each has the constraint \<open>^2.0.0\<close>, its version check always reports
  2.0.0, every dependency it lists is the id of a selected task, and the dependency graph
  is acyclic. Then two runs in succession on the same executor both give one result for
  each task of the sorted list, every result skipped, a success and without steps; both
  runs are a success; and neither run spawns a command.
\<close>

theorem version_gate_idempotent:
  assumes "\<not> forceInstall opts" and "\<not> skipVersionCheck opts" and "\<not> dryRun opts"
    and "\<forall>t\<in>set (filterTasks formula opts).
        task_version t = Some ''^2.0.0'' \<and> reports_version e t ''2.0.0'' \<and>
        set (deps_of t) \<subseteq> set (map task_id (filterTasks formula opts))"
    and "acyclic (set (dep_edges (filterTasks formula opts)))"
    and "run1 = execute e formula opts st" and "run2 = execute e formula opts (snd run1)"
  shows "list_all (\<lambda>r. tr_skipped r \<and> tr_success r \<and> tr_steps r = []) (ir_tasks (fst run1)) \<and>
         list_all (\<lambda>r. tr_skipped r \<and> tr_success r \<and> tr_steps r = []) (ir_tasks (fst run2)) \<and>
         map tr_task (ir_tasks (fst run1)) = topologicalSort (filterTasks formula opts) \<and>
         map tr_task (ir_tasks (fst run2)) = topologicalSort (filterTasks formula opts) \<and>
         ir_success (fst run1) \<and> ir_success (fst run2) \<and>
         filter is_spawn (history (snd run1)) = filter is_spawn (history st) \<and>
         filter is_spawn (history (snd run2)) = filter is_spawn (history st)"
proof -
  note a = execute_already_satisfied[OF assms(1-5), of st]
  note b = execute_already_satisfied[OF assms(1-5), of "snd run1"]
  from a b assms(6,7) show ?thesis
    by (simp add: skipped_ok_def[abs_def])
qed

theorem version_gate_idempotent_witness:
  "filterTasks (formula_of [tool ''lazygit'' (Some [''gh'']), tool ''gh'' None]) default_options
     = [tool ''lazygit'' (Some [''gh'']), tool ''gh'' None] \<and>
   reports_version machine_2_0_0 (tool ''lazygit'' (Some [''gh''])) ''2.0.0'' \<and>
   reports_version machine_2_0_0 (tool ''gh'' None) ''2.0.0'' \<and>
   acyclic (set (dep_edges [tool ''lazygit'' (Some [''gh'']), tool ''gh'' None])) \<and>
   map (\<lambda>r. (task_id (tr_task r), tr_success r, tr_skipped r, tr_steps r))
     (ir_tasks (fst (execute machine_2_0_0
        (formula_of [tool ''lazygit'' (Some [''gh'']), tool ''gh'' None]) default_options
        (snd (execute machine_2_0_0
           (formula_of [tool ''lazygit'' (Some [''gh'']), tool ''gh'' None]) default_options
           (new_executor []))))))
     = [(''gh'', True, True, []), (''lazygit'', True, True, [])] \<and>
   filter is_spawn (history (snd (execute machine_2_0_0
        (formula_of [tool ''lazygit'' (Some [''gh'']), tool ''gh'' None]) default_options
        (snd (execute machine_2_0_0
           (formula_of [tool ''lazygit'' (Some [''gh'']), tool ''gh'' None]) default_options
           (new_executor [])))))) = []"
proof -
  let ?ts = "[tool ''lazygit'' (Some [''gh'']), tool ''gh'' None]"
  let ?F = "formula_of ?ts"
  let ?run1 = "execute machine_2_0_0 ?F default_options (new_executor [])"
  let ?run2 = "execute machine_2_0_0 ?F default_options (snd ?run1)"
  have flags: "\<not> forceInstall default_options" "\<not> skipVersionCheck default_options"
    "\<not> dryRun default_options" by (simp_all add: default_options_def)
  have ft: "filterTasks ?F default_options = ?ts" by code_simp
  have dm: "default_version_match (trim ''2.0.0'') = Some ''2.0.0''" by code_simp
  have rep: "reports_version machine_2_0_0 (tool i ds) ''2.0.0''" for i ds
    unfolding reports_version_def
    by (rule exI[of _ "\<lparr>bt_id = i, bt_name = i, bt_versionCommand = Some (i @ '' --version''),
          bt_versionParseRegex = None\<rparr>"], rule exI[of _ "i @ '' --version''"])
       (simp add: machine_2_0_0_def tool_def parseVersion_def dm)
  have e: "dep_edges ?ts = [(''lazygit'', ''gh'')]" by code_simp
  have "acyclic ({} :: (string \<times> string) set)" by (simp add: acyclic_def)
  then have "acyclic (set [(''lazygit'', ''gh'')])" by simp
  with e have ac: "acyclic (set (dep_edges ?ts))" by simp
  have hyp: "\<forall>t\<in>set (filterTasks ?F default_options).
        task_version t = Some ''^2.0.0'' \<and> reports_version machine_2_0_0 t ''2.0.0'' \<and>
        set (deps_of t) \<subseteq> set (map task_id (filterTasks ?F default_options))"
    unfolding ft using rep by (simp add: tool_def deps_of_def)
  have ac': "acyclic (set (dep_edges (filterTasks ?F default_options)))" unfolding ft by (rule ac)
  have srt: "topologicalSort (filterTasks ?F default_options)
      = [tool ''gh'' None, tool ''lazygit'' (Some [''gh''])]" by code_simp
  from version_gate_idempotent[OF flags hyp ac' refl refl, of "new_executor []"]
  have ok: "list_all (\<lambda>r. tr_skipped r \<and> tr_success r \<and> tr_steps r = []) (ir_tasks (fst ?run2))"
    and tk: "map tr_task (ir_tasks (fst ?run2)) = topologicalSort (filterTasks ?F default_options)"
    and sp: "filter is_spawn (history (snd ?run2)) = filter is_spawn (history (new_executor []))"
    by blast+
  from tk srt obtain r1 r2 where rs: "ir_tasks (fst ?run2) = [r1, r2]"
    "tr_task r1 = tool ''gh'' None" "tr_task r2 = tool ''lazygit'' (Some [''gh''])"
    by (auto simp: map_eq_Cons_conv)
  with ok have m: "map (\<lambda>r. (task_id (tr_task r), tr_success r, tr_skipped r, tr_steps r))
     (ir_tasks (fst ?run2)) = [(''gh'', True, True, []), (''lazygit'', True, True, [])]"
    by (simp add: tool_def)
  from sp have sp': "filter is_spawn (history (snd ?run2)) = []" by (simp add: new_executor_def)
  from ft rep ac m sp' show ?thesis by blast
qed

end
